theory Spec2Isabelle
  imports Main
begin

section \<open>Errors, cells and the grid\<close>

text \<open>
  The solver of \<^verbatim>\<open>sudokuSolver.py\<close> raises no exception of its own; the two Python
  exceptions that its code can run into are a list index out of range and the unpacking of
  \<^verbatim>\<open>None\<close> in \<^verbatim>\<open>i, j = var_selector.select_variable(grid)\<close>.
\<close>

datatype error = IndexError | TypeError

definition bind_err :: "error + 'a \<Rightarrow> ('a \<Rightarrow> error + 'b) \<Rightarrow> error + 'b" where
  "bind_err m f = (case m of Inl e \<Rightarrow> Inl e | Inr x \<Rightarrow> f x)"

lemma bind_err_Inl [simp]: "bind_err (Inl e) f = Inl e"
  by (simp add: bind_err_def)

lemma bind_err_Inr [simp]: "bind_err (Inr x) f = f x"
  by (simp add: bind_err_def)

lemma bind_err_cong [fundef_cong]:
  "m = m' \<Longrightarrow> (\<And>x. m' = Inr x \<Longrightarrow> f x = f' x) \<Longrightarrow> bind_err m f = bind_err m' f'"
  by (cases m') (simp_all add: bind_err_def)

lemma bind_err_eq_Inr:
  "bind_err m f = Inr y \<longleftrightarrow> (\<exists>x. m = Inr x \<and> f x = Inr y)"
  by (cases m) simp_all

text \<open>
  A \<^verbatim>\<open>Grid\<close> object has three fields; \<^verbatim>\<open>_complete_domain\<close> and \<^verbatim>\<open>_width\<close> are set
  in \<^verbatim>\<open>__init__\<close> and never assigned again, so they are constants here and a grid is its
  \<^verbatim>\<open>_cells\<close>: a list of rows, each a list of candidate strings. \<^verbatim>\<open>Grid()\<close> is the empty
  list, and \<^verbatim>\<open>copy\<close> (new row lists, immutable strings) is the identity on values.
\<close>

type_synonym grid = "string list list"
type_synonym coord = "nat \<times> nat"

definition complete_domain :: string where
  "complete_domain = ''123456789''"

definition width :: nat where
  "width = 9"

definition Grid_init :: grid where
  "Grid_init = []"

definition copy :: "grid \<Rightarrow> grid" where
  "copy g = map (\<lambda>row. row) g"

text \<open>\<^verbatim>\<open>grid.get_cells()[i][j]\<close>: the row is indexed first, then the column.\<close>

definition get_cell :: "grid \<Rightarrow> nat \<Rightarrow> nat \<Rightarrow> error + string" where
  "get_cell g i j =
     (if i < length g then
        (if j < length (g ! i) then Inr (g ! i ! j) else Inl IndexError)
      else Inl IndexError)"

text \<open>
  \<^verbatim>\<open>grid.get_cells()[i][j] = v\<close>. Every store of the program follows a read of the same
  cell, so the index is in range where this is used.
\<close>

definition set_cell :: "grid \<Rightarrow> nat \<Rightarrow> nat \<Rightarrow> string \<Rightarrow> grid" where
  "set_cell g i j v = g[i := (g ! i)[j := v]]"

text \<open>The row-major scan \<^verbatim>\<open>for i in range(w): for j in range(w)\<close>.\<close>

definition all_coords :: "coord list" where
  "all_coords = concat (map (\<lambda>i. map (\<lambda>j. (i, j)) [0..<width]) [0..<width])"

section \<open>Grid.read_file\<close>

fun read_file_loop :: "string \<Rightarrow> nat \<Rightarrow> string list \<Rightarrow> grid \<Rightarrow> grid" where
  "read_file_loop [] i row cells = cells"
| "read_file_loop (p # ps) i row cells =
     (let row' = row @ [if p = CHR ''.'' then complete_domain else [p]];
          i' = i + 1
      in if i' mod width = 0 then read_file_loop ps i' [] (cells @ [row'])
         else read_file_loop ps i' row' cells)"

definition read_file :: "string \<Rightarrow> grid \<Rightarrow> grid" where
  "read_file string_puzzle cells = read_file_loop string_puzzle 0 [] cells"

section \<open>Grid.is_solved\<close>

text \<open>\<^verbatim>\<open>all(...)\<close> over a generator stops at the first cell that is not a singleton.\<close>

fun is_solved_loop :: "grid \<Rightarrow> coord list \<Rightarrow> error + bool" where
  "is_solved_loop g [] = Inr True"
| "is_solved_loop g ((i, j) # ps) =
     bind_err (get_cell g i j) (\<lambda>cell.
       if length cell = 1 then is_solved_loop g ps else Inr False)"

definition is_solved :: "grid \<Rightarrow> error + bool" where
  "is_solved g = is_solved_loop g all_coords"

section \<open>Variable selectors\<close>

datatype VarSelector = FirstAvailable | MRV

text \<open>\<^verbatim>\<open>FirstAvailable.select_variable\<close> falls off its loops, returning \<^verbatim>\<open>None\<close>.\<close>

fun first_available_loop :: "grid \<Rightarrow> coord list \<Rightarrow> error + coord option" where
  "first_available_loop g [] = Inr None"
| "first_available_loop g ((i, j) # ps) =
     bind_err (get_cell g i j) (\<lambda>cell.
       if length cell > 1 then Inr (Some (i, j)) else first_available_loop g ps)"

fun mrv_loop :: "grid \<Rightarrow> coord list \<Rightarrow> coord \<Rightarrow> nat \<Rightarrow> error + coord" where
  "mrv_loop g [] var small_domain = Inr var"
| "mrv_loop g ((i, j) # ps) var small_domain =
     bind_err (get_cell g i j) (\<lambda>cell.
       let d_len = length cell in
       if d_len \<le> small_domain \<and> d_len \<noteq> 1 then mrv_loop g ps (i, j) d_len
       else mrv_loop g ps var small_domain)"

definition mrv_select :: "grid \<Rightarrow> error + coord" where
  "mrv_select g = mrv_loop g all_coords (0, 0) 9"

fun select_variable :: "VarSelector \<Rightarrow> grid \<Rightarrow> error + coord option" where
  "select_variable FirstAvailable g = first_available_loop g all_coords"
| "select_variable MRV g = bind_err (mrv_select g) (\<lambda>var. Inr (Some var))"

section \<open>AC3\<close>

text \<open>
  \<^verbatim>\<open>cell.replace(old, '')\<close>: every non-overlapping occurrence of \<^verbatim>\<open>old\<close> is deleted,
  scanning from the left; with \<^verbatim>\<open>old\<close> empty the string comes back unchanged.
\<close>

function replace_empty :: "string \<Rightarrow> string \<Rightarrow> string" where
  "replace_empty [] old = []"
| "replace_empty (x # xs) old =
     (if old \<noteq> [] \<and> take (length old) (x # xs) = old
      then replace_empty (drop (length old) (x # xs)) old
      else x # replace_empty xs old)"
  by pat_completeness auto
termination
  by (relation "measure (\<lambda>(s, old). length s)") auto

text \<open>
  The three \<^verbatim>\<open>remove_domain_*\<close> methods run the same loop body over the peers of
  \<^verbatim>\<open>(row, column)\<close> in a row, a column and a box. \<^verbatim>\<open>remove_loop\<close> is that body over
  a list of peers; the result is \<^verbatim>\<open>variables_assigned\<close> (\<^verbatim>\<open>None\<close> with the flag
  \<^verbatim>\<open>True\<close> of the source is \<open>None\<close> here) and the grid as mutated so far.
\<close>

fun remove_loop ::
  "grid \<Rightarrow> nat \<Rightarrow> nat \<Rightarrow> coord list \<Rightarrow> coord list \<Rightarrow> error + (coord list option \<times> grid)" where
  "remove_loop g row column [] variables_assigned = Inr (Some variables_assigned, g)"
| "remove_loop g row column ((i, j) # ps) variables_assigned =
     bind_err (get_cell g i j) (\<lambda>cell.
     bind_err (get_cell g row column) (\<lambda>v.
       let new_domain = replace_empty cell v in
       if length new_domain = 0 then Inr (None, g)
       else remove_loop (set_cell g i j new_domain) row column ps
              (if length new_domain = 1 \<and> length cell > 1
               then variables_assigned @ [(i, j)] else variables_assigned)))"

definition row_peers :: "nat \<Rightarrow> nat \<Rightarrow> coord list" where
  "row_peers row column = map (\<lambda>j. (row, j)) (filter (\<lambda>j. j \<noteq> column) [0..<width])"

definition column_peers :: "nat \<Rightarrow> nat \<Rightarrow> coord list" where
  "column_peers row column = map (\<lambda>i. (i, column)) (filter (\<lambda>i. i \<noteq> row) [0..<width])"

definition unit_coords :: "nat \<Rightarrow> nat \<Rightarrow> coord list" where
  "unit_coords row column =
     (let r0 = (row div 3) * 3; c0 = (column div 3) * 3
      in concat (map (\<lambda>i. map (\<lambda>j. (i, j)) [c0..<c0 + 3]) [r0..<r0 + 3]))"

definition unit_peers :: "nat \<Rightarrow> nat \<Rightarrow> coord list" where
  "unit_peers row column = filter (\<lambda>p. p \<noteq> (row, column)) (unit_coords row column)"

definition remove_domain_row :: "grid \<Rightarrow> nat \<Rightarrow> nat \<Rightarrow> error + (coord list option \<times> grid)" where
  "remove_domain_row g row column = remove_loop g row column (row_peers row column) []"

definition remove_domain_column :: "grid \<Rightarrow> nat \<Rightarrow> nat \<Rightarrow> error + (coord list option \<times> grid)" where
  "remove_domain_column g row column = remove_loop g row column (column_peers row column) []"

definition remove_domain_unit :: "grid \<Rightarrow> nat \<Rightarrow> nat \<Rightarrow> error + (coord list option \<times> grid)" where
  "remove_domain_unit g row column = remove_loop g row column (unit_peers row column) []"

text \<open>
  The queue \<^verbatim>\<open>Q\<close> is a Python set of coordinates: here a list without repetitions, in
  insertion order. \<^verbatim>\<open>Q.pop()\<close> removes an arbitrary element; which one is chosen by the
  parameter \<open>pick\<close> (an index into the queue, taken modulo its length), and every
  theorem below holds for every \<open>pick\<close>.
\<close>

type_synonym pick = "grid \<Rightarrow> coord list \<Rightarrow> nat"

definition q_add :: "coord \<Rightarrow> coord list \<Rightarrow> coord list" where
  "q_add v Q = (if v \<in> set Q then Q else Q @ [v])"

definition row_big :: "string list \<Rightarrow> nat" where
  "row_big row = sum_list (map (\<lambda>c. if 1 < length c then 1 else 0) row)"

definition big :: "grid \<Rightarrow> nat" where
  "big g = sum_list (map row_big g)"

lemma replace_empty_length: "length (replace_empty s old) \<le> length s"
proof (induction s old rule: replace_empty.induct)
  case (1 old)
  then show ?case by simp
next
  case (2 x xs old)
  then show ?case by (auto simp: le_Suc_eq)
qed

lemma row_big_update:
  "j < length row \<Longrightarrow>
   row_big (row[j := v]) + (if 1 < length (row ! j) then 1 else 0)
     = row_big row + (if 1 < length v then 1 else 0)"
proof (induction row arbitrary: j)
  case Nil
  then show ?case by simp
next
  case (Cons a row)
  then show ?case by (cases j) (auto simp: row_big_def)
qed

lemma big_update:
  "i < length g \<Longrightarrow> big (g[i := r]) + row_big (g ! i) = big g + row_big r"
proof (induction g arbitrary: i)
  case Nil
  then show ?case by simp
next
  case (Cons a g)
  then show ?case by (cases i) (auto simp: big_def)
qed

lemma big_set_cell:
  assumes "i < length g" "j < length (g ! i)"
  shows "big (set_cell g i j v) + (if 1 < length (g ! i ! j) then 1 else 0)
           = big g + (if 1 < length v then 1 else 0)"
proof -
  have a: "big (set_cell g i j v) + row_big (g ! i) = big g + row_big ((g ! i)[j := v])"
    unfolding set_cell_def using big_update [OF assms(1)] by simp
  have b: "row_big ((g ! i)[j := v]) + (if 1 < length (g ! i ! j) then 1 else 0)
     = row_big (g ! i) + (if 1 < length v then 1 else 0)"
    using row_big_update [OF assms(2)] by simp
  from a b show ?thesis by linarith
qed

lemma get_cell_Inr:
  "get_cell g i j = Inr c \<longleftrightarrow> i < length g \<and> j < length (g ! i) \<and> c = g ! i ! j"
  by (auto simp: get_cell_def)

lemma remove_loop_big:
  "remove_loop g row column ps va = Inr (res, g') \<Longrightarrow>
   big g' + (case res of None \<Rightarrow> 0 | Some va' \<Rightarrow> length va' - length va) \<le> big g
   \<and> (case res of None \<Rightarrow> True | Some va' \<Rightarrow> length va \<le> length va')"
proof (induction g row column ps va rule: remove_loop.induct)
  case (1 g row column va)
  then show ?case by auto
next
  case (2 g row column i j ps va)
  from "2.prems" obtain cell v where
    c: "get_cell g i j = Inr cell" and v: "get_cell g row column = Inr v"
    by (auto simp: bind_err_eq_Inr)
  let ?new = "replace_empty cell v"
  show ?case
  proof (cases "length ?new = 0")
    case True
    with "2.prems" c v show ?thesis by simp
  next
    case False
    let ?va = "if length ?new = 1 \<and> length cell > 1 then va @ [(i, j)] else va"
    from "2.prems" c v False
    have r: "remove_loop (set_cell g i j ?new) row column ps ?va = Inr (res, g')"
      by (simp add: Let_def)
    have ih: "big g' + (case res of None \<Rightarrow> 0 | Some va' \<Rightarrow> length va' - length ?va)
                \<le> big (set_cell g i j ?new)
              \<and> (case res of None \<Rightarrow> True | Some va' \<Rightarrow> length ?va \<le> length va')"
      using "2.IH" [OF c v refl False r] .
    from c have ij: "i < length g" "j < length (g ! i)" "cell = g ! i ! j"
      by (auto simp: get_cell_Inr)
    have le: "length ?new \<le> length cell" by (rule replace_empty_length)
    have s: "big (set_cell g i j ?new) + (if 1 < length cell then 1 else 0)
           = big g + (if 1 < length ?new then 1 else 0)"
      using big_set_cell [OF ij(1,2)] ij(3) by simp
    show ?thesis
    proof (cases res)
      case None
      with ih s le show ?thesis by (auto split: if_splits)
    next
      case (Some va')
      with ih s le show ?thesis by (auto split: if_splits)
    qed
  qed
qed

function consistency :: "pick \<Rightarrow> grid \<Rightarrow> coord list \<Rightarrow> error + (bool \<times> grid)" where
  "consistency pick g Q =
     (if Q = [] then Inr (False, g)
      else
        let var = Q ! (pick g Q mod length Q); Q1 = remove1 var Q in
        bind_err (remove_domain_row g (fst var) (snd var)) (\<lambda>(row_vars, g1).
        bind_err (remove_domain_column g1 (fst var) (snd var)) (\<lambda>(col_vars, g2).
        bind_err (remove_domain_unit g2 (fst var) (snd var)) (\<lambda>(unit_vars, g3).
          case row_vars of None \<Rightarrow> Inr (True, g3)
          | Some rv \<Rightarrow>
             (case col_vars of None \<Rightarrow> Inr (True, g3)
              | Some cv \<Rightarrow>
                 (case unit_vars of None \<Rightarrow> Inr (True, g3)
                  | Some uv \<Rightarrow> consistency pick g3 (fold q_add (rv @ cv @ uv) Q1)))))))"
  by pat_completeness auto

lemma length_fold_q_add_le: "length Q \<le> length (fold q_add vs Q)"
proof (induction vs arbitrary: Q)
  case Nil
  then show ?case by simp
next
  case (Cons v vs)
  have "length Q \<le> length (q_add v Q)" by (simp add: q_add_def)
  also have "\<dots> \<le> length (fold q_add vs (q_add v Q))" by (rule Cons.IH)
  finally show ?case by simp
qed

lemma fold_q_add_Nil [simp]: "fold q_add [] Q = Q"
  by simp

lemma remove_three_big:
  assumes "remove_domain_row g r c = Inr (Some rv, g1)"
      and "remove_domain_column g1 r c = Inr (Some cv, g2)"
      and "remove_domain_unit g2 r c = Inr (Some uv, g3)"
  shows "big g3 + length (rv @ cv @ uv) \<le> big g"
proof -
  have 1: "big g1 + length rv \<le> big g"
    using remove_loop_big [OF assms(1) [unfolded remove_domain_row_def]] by simp
  have 2: "big g2 + length cv \<le> big g1"
    using remove_loop_big [OF assms(2) [unfolded remove_domain_column_def]] by simp
  have 3: "big g3 + length uv \<le> big g2"
    using remove_loop_big [OF assms(3) [unfolded remove_domain_unit_def]] by simp
  from 1 2 3 show ?thesis by simp
qed

termination consistency
proof (relation "measures [\<lambda>(pick, g, Q). big g, \<lambda>(pick, g, Q). length Q]", goal_cases)
  case 1
  then show ?case by simp
next
  case (2 pick g Q var Q1 x row_vars g1 x' col_vars g2 x'' unit_vars g3 rv cv uv)
  let ?v = "Q ! (pick g Q mod length Q)"
  from 2 have b: "big g3 + length (rv @ cv @ uv) \<le> big g"
    using remove_three_big [of g "fst ?v" "snd ?v" rv g1 cv g2 uv g3] by simp
  from 2 have m: "?v \<in> set Q" by simp
  show ?case
  proof (cases "rv @ cv @ uv = []")
    case True
    from m have "length (remove1 ?v Q) < length Q"
      by (simp add: length_remove1) (cases Q; simp)
    with True b 2 show ?thesis by auto
  next
    case False
    then have "0 < length (rv @ cv @ uv)" by simp
    with b have "big g3 < big g" by linarith
    with 2 show ?thesis by simp
  qed
qed

declare consistency.simps [simp del]

lemma remove_domain_row_big: "remove_domain_row g r c = Inr (res, g') \<Longrightarrow> big g' \<le> big g"
  using remove_loop_big [of g r c "row_peers r c" "[]" res g']
  by (simp add: remove_domain_row_def)

lemma remove_domain_column_big: "remove_domain_column g r c = Inr (res, g') \<Longrightarrow> big g' \<le> big g"
  using remove_loop_big [of g r c "column_peers r c" "[]" res g']
  by (simp add: remove_domain_column_def)

lemma remove_domain_unit_big: "remove_domain_unit g r c = Inr (res, g') \<Longrightarrow> big g' \<le> big g"
  using remove_loop_big [of g r c "unit_peers r c" "[]" res g']
  by (simp add: remove_domain_unit_def)

lemma consistency_Nil: "consistency pick g [] = Inr (False, g)"
  by (simp add: consistency.simps)

lemma consistency_step:
  assumes "Q \<noteq> []" "var = Q ! (pick g Q mod length Q)"
      and "remove_domain_row g (fst var) (snd var) = Inr (row_vars, g1)"
      and "remove_domain_column g1 (fst var) (snd var) = Inr (col_vars, g2)"
      and "remove_domain_unit g2 (fst var) (snd var) = Inr (unit_vars, g3)"
  shows "consistency pick g Q =
     (case row_vars of None \<Rightarrow> Inr (True, g3)
      | Some rv \<Rightarrow>
         (case col_vars of None \<Rightarrow> Inr (True, g3)
          | Some cv \<Rightarrow>
             (case unit_vars of None \<Rightarrow> Inr (True, g3)
              | Some uv \<Rightarrow> consistency pick g3 (fold q_add (rv @ cv @ uv) (remove1 var Q)))))"
  using assms(1,3-5) unfolding assms(2) by (subst consistency.simps) (simp add: Let_def)

lemma consistency_induct [consumes 0, case_names step]:
  assumes "\<And>pick g Q.
     (\<And>var rv g1 cv g2 uv g3.
        Q \<noteq> [] \<Longrightarrow> var = Q ! (pick g Q mod length Q) \<Longrightarrow>
        remove_domain_row g (fst var) (snd var) = Inr (Some rv, g1) \<Longrightarrow>
        remove_domain_column g1 (fst var) (snd var) = Inr (Some cv, g2) \<Longrightarrow>
        remove_domain_unit g2 (fst var) (snd var) = Inr (Some uv, g3) \<Longrightarrow>
        P pick g3 (fold q_add (rv @ cv @ uv) (remove1 var Q))) \<Longrightarrow> P pick g Q"
  shows "P pick g Q"
proof (induction pick g Q rule: consistency.induct)
  case (1 pick g Q)
  show ?case
  proof (rule assms)
    fix var rv g1 cv g2 uv g3
    assume "Q \<noteq> []" "var = Q ! (pick g Q mod length Q)"
      "remove_domain_row g (fst var) (snd var) = Inr (Some rv, g1)"
      "remove_domain_column g1 (fst var) (snd var) = Inr (Some cv, g2)"
      "remove_domain_unit g2 (fst var) (snd var) = Inr (Some uv, g3)"
    then show "P pick g3 (fold q_add (rv @ cv @ uv) (remove1 var Q))"
      using "1.IH" [of var "remove1 var Q" "(Some rv, g1)" "Some rv" g1 "(Some cv, g2)" "Some cv" g2
          "(Some uv, g3)" "Some uv" g3 rv cv uv]
      by simp
  qed
qed

text \<open>What one pass of the loop does, when no index is out of range.\<close>

lemma consistency_cases:
  assumes "consistency pick g Q = Inr (b, g')"
  obtains (empty) "Q = []" "b = False" "g' = g"
  | (contradiction) var row_vars g1 col_vars g2 unit_vars where
      "Q \<noteq> []" "var = Q ! (pick g Q mod length Q)"
      "remove_domain_row g (fst var) (snd var) = Inr (row_vars, g1)"
      "remove_domain_column g1 (fst var) (snd var) = Inr (col_vars, g2)"
      "remove_domain_unit g2 (fst var) (snd var) = Inr (unit_vars, g')"
      "row_vars = None \<or> col_vars = None \<or> unit_vars = None" "b = True"
  | (continue) var rv g1 cv g2 uv g3 where
      "Q \<noteq> []" "var = Q ! (pick g Q mod length Q)"
      "remove_domain_row g (fst var) (snd var) = Inr (Some rv, g1)"
      "remove_domain_column g1 (fst var) (snd var) = Inr (Some cv, g2)"
      "remove_domain_unit g2 (fst var) (snd var) = Inr (Some uv, g3)"
      "consistency pick g3 (fold q_add (rv @ cv @ uv) (remove1 var Q)) = Inr (b, g')"
proof (cases "Q = []")
  case True
  with assms show ?thesis by (intro empty) (simp_all add: consistency_Nil)
next
  case False
  define var where "var = Q ! (pick g Q mod length Q)"
  from assms False obtain row_vars g1 col_vars g2 unit_vars g3 where
    r: "remove_domain_row g (fst var) (snd var) = Inr (row_vars, g1)" and
    c: "remove_domain_column g1 (fst var) (snd var) = Inr (col_vars, g2)" and
    u: "remove_domain_unit g2 (fst var) (snd var) = Inr (unit_vars, g3)"
    unfolding var_def
    by (subst (asm) consistency.simps) (auto simp: Let_def bind_err_eq_Inr)
  note st = consistency_step [where pick = pick and g = g and Q = Q, OF False var_def r c u]
  show ?thesis
  proof (cases "row_vars = None \<or> col_vars = None \<or> unit_vars = None")
    case True
    with st assms have "b = True" "g' = g3" by (auto split: option.splits)
    with False var_def r c u True show ?thesis by (intro contradiction [of var row_vars g1 col_vars g2 unit_vars]) simp_all
  next
    case F: False
    then obtain rv cv uv where s: "row_vars = Some rv" "col_vars = Some cv" "unit_vars = Some uv"
      by auto
    with st assms have "consistency pick g3 (fold q_add (rv @ cv @ uv) (remove1 var Q)) = Inr (b, g')"
      by simp
    with False var_def r c u s show ?thesis by (intro continue [of var rv g1 cv g2 uv g3]) simp_all
  qed
qed

lemma consistency_big: "consistency pick g Q = Inr (b, g') \<Longrightarrow> big g' \<le> big g"
proof (induction pick g Q rule: consistency_induct)
  case (step pick g Q)
  from step.prems show ?case
  proof (cases rule: consistency_cases)
    case empty
    then show ?thesis by simp
  next
    case (contradiction var row_vars g1 col_vars g2 unit_vars)
    then show ?thesis
      using remove_domain_row_big [of g "fst var" "snd var" row_vars g1]
        remove_domain_column_big [of g1 "fst var" "snd var" col_vars g2]
        remove_domain_unit_big [of g2 "fst var" "snd var" unit_vars g'] by linarith
  next
    case (continue var rv g1 cv g2 uv g3)
    have "big g' \<le> big g3"
      using step.IH [OF continue(1-5) continue(6)] .
    with continue show ?thesis
      using remove_domain_row_big [of g "fst var" "snd var" "Some rv" g1]
        remove_domain_column_big [of g1 "fst var" "snd var" "Some cv" g2]
        remove_domain_unit_big [of g2 "fst var" "snd var" "Some uv" g3] by linarith
  qed
qed

text \<open>
  \<^verbatim>\<open>pre_process_consistency\<close> collects the coordinates of the singleton cells and runs
  \<^verbatim>\<open>consistency\<close>, whose result it drops: the method has no \<^verbatim>\<open>return\<close>, so the caller
  gets \<^verbatim>\<open>None\<close> and the grid as mutated.
\<close>

fun pre_process_queue :: "grid \<Rightarrow> coord list \<Rightarrow> coord list \<Rightarrow> error + coord list" where
  "pre_process_queue g [] Q = Inr Q"
| "pre_process_queue g ((i, j) # ps) Q =
     bind_err (get_cell g i j) (\<lambda>cell.
       if length cell = 1 then pre_process_queue g ps (q_add (i, j) Q)
       else pre_process_queue g ps Q)"

definition pre_process_consistency :: "pick \<Rightarrow> grid \<Rightarrow> error + grid" where
  "pre_process_consistency pick g =
     bind_err (pre_process_queue g all_coords []) (\<lambda>Q.
     bind_err (consistency pick g Q) (\<lambda>(contradiction, g'). Inr g'))"

section \<open>Backtracking\<close>

text \<open>
  \<^verbatim>\<open>consistent\<close>: the first loop tests the cell of the row and the cell of the column at
  each index in turn, the second the nine cells of the box (the cell itself among them).
  \<^verbatim>\<open>d_val\<close> is a one-character string.
\<close>

fun consistent_line :: "grid \<Rightarrow> string \<Rightarrow> nat \<Rightarrow> nat \<Rightarrow> nat list \<Rightarrow> error + bool" where
  "consistent_line g d_val row col [] = Inr True"
| "consistent_line g d_val row col (i # is) =
     bind_err (get_cell g row i) (\<lambda>a.
       if length a = 1 \<and> a = d_val then Inr False
       else bind_err (get_cell g i col) (\<lambda>b.
         if length b = 1 \<and> b = d_val then Inr False
         else consistent_line g d_val row col is))"

fun consistent_unit :: "grid \<Rightarrow> string \<Rightarrow> coord list \<Rightarrow> error + bool" where
  "consistent_unit g d_val [] = Inr True"
| "consistent_unit g d_val ((i, j) # ps) =
     bind_err (get_cell g i j) (\<lambda>a.
       if length a = 1 \<and> a = d_val then Inr False
       else consistent_unit g d_val ps)"

definition consistent :: "grid \<Rightarrow> string \<Rightarrow> nat \<Rightarrow> nat \<Rightarrow> error + bool" where
  "consistent g d_val row col =
     bind_err (consistent_line g d_val row col [0..<9]) (\<lambda>ok.
       if \<not> ok then Inr False else consistent_unit g d_val (unit_coords row col))"

text \<open>
  The loop \<^verbatim>\<open>for d in ...: ... return result\<close> of \<^verbatim>\<open>search\<close>: the body gives
  \<open>Some r\<close> where it returns \<open>r\<close> and \<open>None\<close> where it goes on to the next value; after
  the last value the loop is left and \<^verbatim>\<open>search\<close> returns \<^verbatim>\<open>False\<close>, here \<open>None\<close>.
\<close>

fun try_each :: "('a \<Rightarrow> error + 'b option) \<Rightarrow> 'a list \<Rightarrow> error + 'b option" where
  "try_each body [] = Inr None"
| "try_each body (d # ds) =
     bind_err (body d) (\<lambda>result.
       case result of Some r \<Rightarrow> Inr (Some r) | None \<Rightarrow> try_each body ds)"

lemma try_each_cong [fundef_cong]:
  "ds = ds' \<Longrightarrow> (\<And>d. d \<in> set ds' \<Longrightarrow> body d = body' d) \<Longrightarrow>
   try_each body ds = try_each body' ds'"
proof (induction ds arbitrary: ds')
  case Nil
  then show ?case by simp
next
  case (Cons d ds)
  then show ?case by (auto simp: bind_err_def split: sum.splits option.splits)
qed

lemma copy_id [simp]: "copy g = g"
  by (simp add: copy_def)

lemma consistent_unit_True:
  "consistent_unit g d_val ps = Inr True \<Longrightarrow> (i, j) \<in> set ps \<Longrightarrow>
   get_cell g i j = Inr c \<Longrightarrow> length c = 1 \<Longrightarrow> c \<noteq> d_val"
proof (induction g d_val ps rule: consistent_unit.induct)
  case (1 g d_val)
  then show ?case by simp
next
  case (2 g d_val i' j' ps)
  then show ?case by (auto simp: bind_err_eq_Inr split: if_splits)
qed

lemma self_in_unit_coords: "(row, col) \<in> set (unit_coords row col)"
proof -
  have r: "row \<in> set [row div 3 * 3..<row div 3 * 3 + 3]"
    by (simp del: upt_Suc)
  have c: "col \<in> set [col div 3 * 3..<col div 3 * 3 + 3]"
    by (simp del: upt_Suc)
  have "(row, col) \<in> set (map (\<lambda>j. (row, j)) [col div 3 * 3..<col div 3 * 3 + 3])"
    using c by (simp only: set_map) (rule imageI)
  moreover have "map (\<lambda>j. (row, j)) [col div 3 * 3..<col div 3 * 3 + 3]
      \<in> set (map (\<lambda>i. map (\<lambda>j. (i, j)) [col div 3 * 3..<col div 3 * 3 + 3])
               [row div 3 * 3..<row div 3 * 3 + 3])"
    using r by (simp only: set_map) (rule imageI)
  ultimately show ?thesis
    unfolding unit_coords_def Let_def set_concat by (rule UN_I [rotated])
qed

lemma consistent_True:
  assumes "consistent g d_val row col = Inr True" "get_cell g row col = Inr c" "length c = 1"
  shows "c \<noteq> d_val"
proof -
  from assms(1) have "consistent_unit g d_val (unit_coords row col) = Inr True"
    by (auto simp: consistent_def bind_err_eq_Inr split: if_splits)
  then show ?thesis
    using self_in_unit_coords assms(2,3) by (rule consistent_unit_True)
qed

lemma search_measure:
  assumes "get_cell g i j = Inr domain" "d \<in> set domain"
      and "consistent g [d] i j = Inr True"
      and "consistency pick (set_cell g i j [d]) Q = Inr (b, g')"
  shows "big g' < big g"
proof -
  from assms(1) have ij: "i < length g" "j < length (g ! i)" "domain = g ! i ! j"
    by (auto simp: get_cell_Inr)
  have "length domain \<noteq> 1"
  proof
    assume l: "length domain = 1"
    with assms(2) have "domain = [d]" by (cases domain) auto
    with consistent_True [OF assms(3) assms(1) l] show False by simp
  qed
  moreover from assms(2) have "length domain \<noteq> 0" by auto
  ultimately have "1 < length (g ! i ! j)" using ij(3) by (cases "g ! i ! j") auto
  with big_set_cell [OF ij(1,2), of "[d]"] have "big (set_cell g i j [d]) < big g" by simp
  with consistency_big [OF assms(4)] show ?thesis by linarith
qed

function search :: "pick \<Rightarrow> VarSelector \<Rightarrow> grid \<Rightarrow> error + grid option" where
  "search pick var_selector g =
     bind_err (is_solved g) (\<lambda>solved.
       if solved then Inr (Some g)
       else
         bind_err (select_variable var_selector g) (\<lambda>selected.
           case selected of
             None \<Rightarrow> Inl TypeError
           | Some var \<Rightarrow>
               bind_err (get_cell g (fst var) (snd var)) (\<lambda>domain.
                 try_each (\<lambda>d.
                   bind_err (consistent g [d] (fst var) (snd var)) (\<lambda>ok.
                     if ok then
                       bind_err (consistency pick (set_cell (copy g) (fst var) (snd var) [d]) [var])
                         (\<lambda>(contradiction, copy_grid).
                            if \<not> contradiction then search pick var_selector copy_grid
                            else Inr None)
                     else Inr None))
                   domain)))"
  by pat_completeness auto
termination
proof (relation "measure (\<lambda>(pick, var_selector, g). big g)", goal_cases)
  case 1
  then show ?case by simp
next
  case (2 pick var_selector g solved selected var domain d ok res contradiction copy_grid)
  then show ?case
    using search_measure [of g "fst var" "snd var" domain d pick "[var]" False copy_grid]
    by simp
qed

declare search.simps [simp del]

section \<open>Properties of read_file\<close>

text \<open>Proof device: the complete groups of nine of a list, in order.\<close>

function groups9 :: "'a list \<Rightarrow> 'a list list" where
  "groups9 xs = (if length xs < 9 then [] else take 9 xs # groups9 (drop 9 xs))"
  by pat_completeness auto
termination
  by (relation "measure length") auto

declare groups9.simps [simp del]

definition cell_of_char :: "char \<Rightarrow> string" where
  "cell_of_char p = (if p = CHR ''.'' then complete_domain else [p])"

lemma groups9_short: "length xs < 9 \<Longrightarrow> groups9 xs = []"
  by (subst groups9.simps) simp

lemma groups9_append: "length r = 9 \<Longrightarrow> groups9 (r @ xs) = r # groups9 xs"
  by (subst groups9.simps) simp

lemma read_file_loop_Cons:
  "read_file_loop (p # ps) i row cells =
     (if (i + 1) mod 9 = 0
      then read_file_loop ps (i + 1) [] (cells @ [row @ [cell_of_char p]])
      else read_file_loop ps (i + 1) (row @ [cell_of_char p]) cells)"
  unfolding read_file_loop.simps Let_def width_def cell_of_char_def ..

lemma read_file_loop_groups:
  "length row = i mod 9 \<Longrightarrow>
   read_file_loop s i row cells = cells @ groups9 (row @ map cell_of_char s)"
proof (induction s arbitrary: i row cells)
  case Nil
  then have "length row < 9" by simp
  then show ?case by (simp add: groups9_short)
next
  case (Cons p ps)
  let ?row' = "row @ [cell_of_char p]"
  have e: "row @ map cell_of_char (p # ps) = ?row' @ map cell_of_char ps" by simp
  show ?case
  proof (cases "(i + 1) mod 9 = 0")
    case True
    then have "i mod 9 = 8" by (simp add: mod_Suc split: if_splits)
    with Cons.prems have l: "length ?row' = 9" by simp
    have z: "length ([]::string list) = (i + 1) mod 9" using True by simp
    have "read_file_loop (p # ps) i row cells = read_file_loop ps (i + 1) [] (cells @ [?row'])"
      by (subst read_file_loop_Cons) (simp only: True refl if_True)
    also have "\<dots> = (cells @ [?row']) @ groups9 ([] @ map cell_of_char ps)"
      using z by (rule Cons.IH)
    also have "\<dots> = cells @ groups9 (?row' @ map cell_of_char ps)"
      using groups9_append [OF l, of "map cell_of_char ps"] by simp
    finally show ?thesis by (simp only: e)
  next
    case False
    then have "(i + 1) mod 9 = i mod 9 + 1" by (simp add: mod_Suc split: if_splits)
    with Cons.prems have l: "length ?row' = (i + 1) mod 9" by simp
    have "read_file_loop (p # ps) i row cells = read_file_loop ps (i + 1) ?row' cells"
      by (subst read_file_loop_Cons) (simp only: False if_False)
    also have "\<dots> = cells @ groups9 (?row' @ map cell_of_char ps)"
      using l by (rule Cons.IH)
    finally show ?thesis by (simp only: e)
  qed
qed

lemma read_file_groups: "read_file s cells = cells @ groups9 (map cell_of_char s)"
  using read_file_loop_groups [of "[]" 0 s cells] by (simp add: read_file_def)

lemma length_groups9: "length (groups9 xs) = length xs div 9"
proof (induction xs rule: groups9.induct)
  case (1 xs)
  show ?case
  proof (cases "length xs < 9")
    case True
    then show ?thesis by (simp add: groups9_short)
  next
    case False
    then have "length (groups9 xs) = Suc (length (groups9 (drop 9 xs)))"
      by (subst groups9.simps) simp
    also have "\<dots> = Suc ((length xs - 9) div 9)" using 1 False by simp
    also have "\<dots> = length xs div 9" using False le_div_geq [of 9 "length xs"] by simp
    finally show ?thesis .
  qed
qed

lemma groups9_nth: "k < length xs div 9 \<Longrightarrow> groups9 xs ! k = take 9 (drop (9 * k) xs)"
proof (induction xs arbitrary: k rule: groups9.induct)
  case (1 xs)
  from "1.prems" have ge: "\<not> length xs < 9" by (cases "length xs < 9") simp_all
  then have u: "groups9 xs = take 9 xs # groups9 (drop 9 xs)"
    by (subst groups9.simps) simp
  show ?case
  proof (cases k)
    case 0
    with u show ?thesis by simp
  next
    case (Suc k')
    with "1.prems" ge have "k' < length (drop 9 xs) div 9" by simp
    from "1.IH" [OF ge this] Suc u show ?thesis by (simp add: add.commute)
  qed
qed

lemma groups9_rows: "r \<in> set (groups9 xs) \<Longrightarrow> length r = 9"
proof (induction xs rule: groups9.induct)
  case (1 xs)
  show ?case
  proof (cases "length xs < 9")
    case True
    with "1.prems" show ?thesis by (simp add: groups9_short)
  next
    case False
    then have u: "groups9 xs = take 9 xs # groups9 (drop 9 xs)"
      by (subst groups9.simps) simp
    with "1.prems" "1.IH" [OF False] False show ?thesis by auto
  qed
qed

lemma concat_groups9: "concat (groups9 xs) = take (9 * (length xs div 9)) xs"
proof (induction xs rule: groups9.induct)
  case (1 xs)
  show ?case
  proof (cases "length xs < 9")
    case True
    then show ?thesis by (simp add: groups9_short)
  next
    case False
    then have u: "groups9 xs = take 9 xs # groups9 (drop 9 xs)"
      by (subst groups9.simps) simp
    have d: "length xs div 9 = Suc ((length xs - 9) div 9)" using False le_div_geq [of 9 "length xs"] by simp
    have "concat (groups9 xs) = take 9 xs @ take (9 * ((length xs - 9) div 9)) (drop 9 xs)"
      using u "1.IH" [OF False] by simp
    also have "\<dots> = take (9 + 9 * ((length xs - 9) div 9)) xs"
      by (simp add: take_add)
    finally show ?thesis using d by simp
  qed
qed

definition shape9 :: "grid \<Rightarrow> bool" where
  "shape9 g \<longleftrightarrow> length g = 9 \<and> (\<forall>row \<in> set g. length row = 9)"

lemma get_cell_shape9:
  "shape9 g \<Longrightarrow> i < 9 \<Longrightarrow> j < 9 \<Longrightarrow> get_cell g i j = Inr (g ! i ! j)"
  by (simp add: shape9_def get_cell_def)

lemma set_all_coords: "set all_coords = {(i, j). i < 9 \<and> j < 9}"
  by (auto simp: all_coords_def width_def simp del: upt_Suc)

lemma all_coords_index: "map (\<lambda>(i, j). 9 * i + j) all_coords = [0..<81]"
  by code_simp

lemma groups9_cell:
  assumes "i < length xs div 9" "j < 9"
  shows "groups9 xs ! i ! j = xs ! (9 * i + j)"
proof -
  from assms(1) have "9 * Suc i \<le> 9 * (length xs div 9)" by simp
  also have "\<dots> \<le> length xs" by (rule times_div_less_eq_dividend)
  finally have "9 * i + 9 \<le> length xs" by simp
  with assms(2) have "9 * i + j < length xs" by simp
  then show ?thesis using assms by (simp add: groups9_nth)
qed

lemma read_file_shape9: "length s = 81 \<Longrightarrow> shape9 (read_file s Grid_init)"
  by (auto simp: shape9_def read_file_groups Grid_init_def length_groups9 dest: groups9_rows)

lemma read_file_cell:
  assumes "length s = 81" "i < 9" "j < 9"
  shows "read_file s Grid_init ! i ! j = cell_of_char (s ! (9 * i + j))"
proof -
  have "i < length (map cell_of_char s) div 9" using assms by simp
  from groups9_cell [OF this assms(3)] assms show ?thesis
    by (simp add: read_file_groups Grid_init_def)
qed

lemma read_file_get_cell:
  assumes "length s = 81" "i < 9" "j < 9"
  shows "get_cell (read_file s Grid_init) i j = Inr (cell_of_char (s ! (9 * i + j)))"
  using get_cell_shape9 [OF read_file_shape9 [OF assms(1)] assms(2,3)] read_file_cell [OF assms]
  by simp

section \<open>Claims about read_file\<close>

lemma length_read_file: "length (read_file s cells) = length cells + length s div 9"
  by (simp add: read_file_groups length_groups9)

text \<open>
  C1, as stated, fails: \<^verbatim>\<open>read_file\<close> checks neither the length nor the characters of
  its input and has no error to raise. An 80-character input, an 82-character input and an
  81-character input that starts with the letter x each change a fresh board.
\<close>

theorem C1_read_file_mutates_counterexample:
  "read_file (replicate 80 (CHR ''.'')) Grid_init \<noteq> Grid_init
   \<and> read_file (replicate 82 (CHR ''.'')) Grid_init \<noteq> Grid_init
   \<and> read_file (CHR ''x'' # replicate 80 (CHR ''.'')) Grid_init \<noteq> Grid_init"
proof -
  have "length (read_file s Grid_init) \<noteq> 0 \<Longrightarrow> read_file s Grid_init \<noteq> Grid_init" for s
    by (auto simp: Grid_init_def)
  then show ?thesis by (simp add: length_read_file Grid_init_def)
qed

text \<open>
  C1 (corrected): for every input string and every board, \<^verbatim>\<open>read_file\<close> returns
  normally: it keeps the rows the board has, and appends one row of nine cells for each
  complete group of nine characters, in order, a dot giving the full domain and any other
  character (a letter too) the one-character string of itself; the characters after the
  last complete group are dropped.
\<close>

theorem C1_read_file_total:
  "length (read_file s cells) = length cells + length s div 9
   \<and> take (length cells) (read_file s cells) = cells
   \<and> map length (drop (length cells) (read_file s cells)) = replicate (length s div 9) 9
   \<and> concat (drop (length cells) (read_file s cells))
       = map (\<lambda>p. if p = CHR ''.'' then complete_domain else [p]) (take (9 * (length s div 9)) s)"
proof -
  have r: "map length (groups9 xs) = replicate (length xs div 9) 9" for xs :: "string list"
    using groups9_rows [of _ xs] length_groups9 [of xs]
    by (intro replicate_eqI) auto
  have c: "cell_of_char = (\<lambda>p. if p = CHR ''.'' then complete_domain else [p])"
    by (rule ext) (simp add: cell_of_char_def)
  show ?thesis
    using r [of "map cell_of_char s"]
    by (simp add: read_file_groups length_groups9 concat_groups9 take_map c)
qed

text \<open>
  C6, as stated, fails on the character 0: the source compares with the dot only, so a 0
  is stored as the one-character string 0, not as the full domain.
\<close>

theorem C6_zero_counterexample:
  "length (CHR ''0'' # replicate 80 (CHR ''.'')) = 81
   \<and> get_cell (read_file (CHR ''0'' # replicate 80 (CHR ''.'')) Grid_init) 0 0 = Inr ''0''
   \<and> get_cell (read_file (CHR ''0'' # replicate 80 (CHR ''.'')) Grid_init) 0 0
        \<noteq> Inr complete_domain"
proof -
  have "get_cell (read_file (CHR ''0'' # replicate 80 (CHR ''.'')) Grid_init) 0 0 = Inr ''0''"
    using read_file_get_cell [of "CHR ''0'' # replicate 80 (CHR ''.'')" 0 0]
    by (simp add: cell_of_char_def)
  then show ?thesis by (simp add: complete_domain_def)
qed

text \<open>
  C6 (corrected): for every 81-character string, \<^verbatim>\<open>read_file\<close> on a fresh board gives
  nine rows of nine cells; the cell at row \<open>i\<close> and column \<open>j\<close> holds the full domain
  where character \<open>9 * i + j\<close> of the input is a dot, and otherwise the one-character string
  of that character (the singleton of the digit, for a digit 1 to 9).
\<close>

theorem C6_read_file_cells:
  assumes "length s = 81"
  shows "length (read_file s Grid_init) = 9
   \<and> (\<forall>i < 9. length (read_file s Grid_init ! i) = 9)
   \<and> (\<forall>i < 9. \<forall>j < 9.
        get_cell (read_file s Grid_init) i j =
          Inr (if s ! (9 * i + j) = CHR ''.'' then complete_domain else [s ! (9 * i + j)]))"
proof -
  from read_file_shape9 [OF assms] have "length (read_file s Grid_init) = 9"
    and "\<forall>i < 9. length (read_file s Grid_init ! i) = 9"
    by (simp_all add: shape9_def)
  moreover have "\<forall>i < 9. \<forall>j < 9.
        get_cell (read_file s Grid_init) i j =
          Inr (if s ! (9 * i + j) = CHR ''.'' then complete_domain else [s ! (9 * i + j)])"
    using read_file_get_cell [OF assms] by (simp add: cell_of_char_def)
  ultimately show ?thesis by blast
qed

definition easy_puzzle :: string where
  "easy_puzzle =
     ''53..7....6..195....98....6.8...6...34..8.3..17...2...6.6....28....419..5....8..79''"

lemma length_easy_puzzle: "length easy_puzzle = 81"
  by (simp add: easy_puzzle_def)

theorem C6_read_file_cells_witness:
  "length easy_puzzle = 81
   \<and> length (read_file easy_puzzle Grid_init) = 9
   \<and> length (read_file easy_puzzle Grid_init ! 0) = 9
   \<and> get_cell (read_file easy_puzzle Grid_init) 0 0 = Inr ''5''
   \<and> get_cell (read_file easy_puzzle Grid_init) 0 2 = Inr ''123456789''"
proof -
  note t = C6_read_file_cells [OF length_easy_puzzle]
  have e0: "easy_puzzle ! (9 * 0 + 0) = CHR ''5''" and e2: "easy_puzzle ! (9 * 0 + 2) = CHR ''.''"
    by (simp_all add: easy_puzzle_def)
  have c0: "get_cell (read_file easy_puzzle Grid_init) 0 0 = Inr ''5''"
    using t [THEN conjunct2, THEN conjunct2, rule_format, of 0 0] unfolding e0 by simp
  have c2: "get_cell (read_file easy_puzzle Grid_init) 0 2 = Inr ''123456789''"
    using t [THEN conjunct2, THEN conjunct2, rule_format, of 0 2] unfolding e2
    by (simp add: complete_domain_def)
  from t c0 c2 show ?thesis by (simp add: length_easy_puzzle)
qed

section \<open>Round trip\<close>

text \<open>
  Modelled from the spec: the repository has no function that gives a board back as an
  81-character string; the spec's serializer is modelled here. Each cell is rendered as
  \<^verbatim>\<open>Grid.print\<close> renders it (\<^verbatim>\<open>val if len(val) == 1 else '.'\<close>), in the row-major
  order of its two loops, without the frame that \<^verbatim>\<open>print\<close> draws around the cells.
\<close>

fun serialize_loop :: "grid \<Rightarrow> coord list \<Rightarrow> error + string" where
  "serialize_loop g [] = Inr []"
| "serialize_loop g ((i, j) # ps) =
     bind_err (get_cell g i j) (\<lambda>val.
     bind_err (serialize_loop g ps) (\<lambda>rest.
       Inr ((if length val = 1 then val else ''.'') @ rest)))"

definition serialize :: "grid \<Rightarrow> error + string" where
  "serialize g = serialize_loop g all_coords"

lemma serialize_loop_read_file:
  assumes "length s = 81" "set ps \<subseteq> set all_coords"
  shows "serialize_loop (read_file s Grid_init) ps = Inr (map (\<lambda>(i, j). s ! (9 * i + j)) ps)"
  using assms(2)
proof (induction ps)
  case Nil
  then show ?case by simp
next
  case (Cons p ps)
  obtain i j where p: "p = (i, j)" by (cases p)
  with Cons.prems have "i < 9" "j < 9" by (simp_all add: set_all_coords)
  from read_file_get_cell [OF assms(1) this] Cons p show ?case
    by (simp add: cell_of_char_def complete_domain_def)
qed

lemma serialize_read_file: "length s = 81 \<Longrightarrow> serialize (read_file s Grid_init) = Inr s"
proof -
  assume l: "length s = 81"
  have "map (\<lambda>(i, j). s ! (9 * i + j)) all_coords = map ((!) s) (map (\<lambda>(i, j). 9 * i + j) all_coords)"
    by (simp add: case_prod_unfold comp_def)
  also have "\<dots> = map ((!) s) [0..<length s]" by (simp only: all_coords_index l)
  also have "\<dots> = s" by (rule map_nth)
  finally show ?thesis
    using serialize_loop_read_file [OF l subset_refl] by (simp add: serialize_def)
qed

text \<open>
  C8 (confirmed): for every 81-character string over the digits 1 to 9 and the dot,
  \<^verbatim>\<open>read_file\<close> on a fresh board followed by the serializer (the digit of a singleton cell,
  a dot for any other cell), with no propagation in between, gives the string back.
\<close>

theorem C8_round_trip:
  assumes "length s = 81" "set s \<subseteq> set ''123456789.''"
  shows "serialize (read_file s Grid_init) = Inr s"
  using assms(1) by (rule serialize_read_file)

theorem C8_round_trip_witness:
  "length easy_puzzle = 81 \<and> set easy_puzzle \<subseteq> set ''123456789.''
   \<and> serialize (read_file easy_puzzle Grid_init) = Inr easy_puzzle"
proof -
  have c: "set easy_puzzle \<subseteq> set ''123456789.''"
    by (simp add: easy_puzzle_def)
  from C8_round_trip [OF length_easy_puzzle c] c show ?thesis
    by (simp add: length_easy_puzzle)
qed

section \<open>Claims about the variable selectors\<close>


definition solved_puzzle :: string where
  "solved_puzzle =
     ''534678912672195348198342567859761423426853791713924856961537284287419635345286179''"

lemma length_solved_puzzle: "length solved_puzzle = 81"
  by (simp add: solved_puzzle_def)





text \<open>
  A board of the data model: nine rows of nine cells, each cell holding between one and
  nine candidates.
\<close>

definition domains_1_to_9 :: "grid \<Rightarrow> bool" where
  "domains_1_to_9 g \<longleftrightarrow> (\<forall>i < 9. \<forall>j < 9. 1 \<le> length (g ! i ! j) \<and> length (g ! i ! j) \<le> 9)"

definition has_open_cell :: "grid \<Rightarrow> bool" where
  "has_open_cell g \<longleftrightarrow> (\<exists>i < 9. \<exists>j < 9. 1 < length (g ! i ! j))"

definition cell_len :: "grid \<Rightarrow> coord \<Rightarrow> nat" where
  "cell_len g p = length (g ! fst p ! snd p)"

lemma mrv_loop_last_min:
  assumes "shape9 g" "set ps \<subseteq> set all_coords"
  shows "\<exists>res. mrv_loop g ps var small = Inr res \<and>
    ((res = var \<and> (\<forall>p \<in> set ps. \<not> (cell_len g p \<le> small \<and> cell_len g p \<noteq> 1))) \<or>
     (\<exists>k < length ps. res = ps ! k \<and> cell_len g res \<noteq> 1 \<and> cell_len g res \<le> small \<and>
        (\<forall>p \<in> set ps. cell_len g p \<noteq> 1 \<longrightarrow> cell_len g res \<le> cell_len g p) \<and>
        (\<forall>k'. k < k' \<and> k' < length ps \<and> cell_len g (ps ! k') \<noteq> 1
              \<longrightarrow> cell_len g res < cell_len g (ps ! k'))))"
  using assms(2)
proof (induction ps arbitrary: var small)
  case Nil
  then show ?case by simp
next
  case (Cons p ps)
  obtain i j where p: "p = (i, j)" by (cases p)
  with Cons.prems have ij: "i < 9" "j < 9" by (simp_all add: set_all_coords)
  note gc = get_cell_shape9 [OF assms(1) ij]
  let ?d = "cell_len g p"
  have d: "?d = length (g ! i ! j)" by (simp add: cell_len_def p)
  from Cons.prems have sub: "set ps \<subseteq> set all_coords" by simp
  show ?case
  proof (cases "?d \<le> small \<and> ?d \<noteq> 1")
    case True
    then have step: "mrv_loop g (p # ps) var small = mrv_loop g ps p ?d"
      by (simp add: p gc cell_len_def Let_def)
    from Cons.IH [OF sub, of p ?d] obtain res where
      r: "mrv_loop g ps p ?d = Inr res"
      and alt: "(res = p \<and> (\<forall>q \<in> set ps. \<not> (cell_len g q \<le> ?d \<and> cell_len g q \<noteq> 1))) \<or>
        (\<exists>k < length ps. res = ps ! k \<and> cell_len g res \<noteq> 1 \<and> cell_len g res \<le> ?d \<and>
          (\<forall>q \<in> set ps. cell_len g q \<noteq> 1 \<longrightarrow> cell_len g res \<le> cell_len g q) \<and>
          (\<forall>k'. k < k' \<and> k' < length ps \<and> cell_len g (ps ! k') \<noteq> 1
              \<longrightarrow> cell_len g res < cell_len g (ps ! k')))"
      by blast
    from alt show ?thesis
    proof
      assume a: "res = p \<and> (\<forall>q \<in> set ps. \<not> (cell_len g q \<le> ?d \<and> cell_len g q \<noteq> 1))"
      have "\<exists>k < length (p # ps). res = (p # ps) ! k \<and> cell_len g res \<noteq> 1 \<and> cell_len g res \<le> small \<and>
        (\<forall>q \<in> set (p # ps). cell_len g q \<noteq> 1 \<longrightarrow> cell_len g res \<le> cell_len g q) \<and>
        (\<forall>k'. k < k' \<and> k' < length (p # ps) \<and> cell_len g ((p # ps) ! k') \<noteq> 1
              \<longrightarrow> cell_len g res < cell_len g ((p # ps) ! k'))"
      proof (intro exI [of _ 0] conjI allI impI ballI)
        fix k' assume k: "0 < k' \<and> k' < length (p # ps) \<and> cell_len g ((p # ps) ! k') \<noteq> 1"
        then obtain m where m: "k' = Suc m" by (cases k') auto
        with k have "ps ! m \<in> set ps" "cell_len g (ps ! m) \<noteq> 1" by simp_all
        with a have "\<not> cell_len g (ps ! m) \<le> ?d" by blast
        with a m show "cell_len g res < cell_len g ((p # ps) ! k')" by simp
      next
        fix q assume "q \<in> set (p # ps)" "cell_len g q \<noteq> 1"
        with a show "cell_len g res \<le> cell_len g q" by (cases "q = p") (auto simp: not_le)
      qed (use a True in auto)
      with step r show ?thesis by auto
    next
      assume "\<exists>k < length ps. res = ps ! k \<and> cell_len g res \<noteq> 1 \<and> cell_len g res \<le> ?d \<and>
          (\<forall>q \<in> set ps. cell_len g q \<noteq> 1 \<longrightarrow> cell_len g res \<le> cell_len g q) \<and>
          (\<forall>k'. k < k' \<and> k' < length ps \<and> cell_len g (ps ! k') \<noteq> 1
              \<longrightarrow> cell_len g res < cell_len g (ps ! k'))"
      then obtain k where k: "k < length ps" "res = ps ! k" "cell_len g res \<noteq> 1"
        "cell_len g res \<le> ?d"
        "\<forall>q \<in> set ps. cell_len g q \<noteq> 1 \<longrightarrow> cell_len g res \<le> cell_len g q"
        "\<forall>k'. k < k' \<and> k' < length ps \<and> cell_len g (ps ! k') \<noteq> 1
              \<longrightarrow> cell_len g res < cell_len g (ps ! k')"
        by blast
      have "\<exists>k < length (p # ps). res = (p # ps) ! k \<and> cell_len g res \<noteq> 1 \<and> cell_len g res \<le> small \<and>
        (\<forall>q \<in> set (p # ps). cell_len g q \<noteq> 1 \<longrightarrow> cell_len g res \<le> cell_len g q) \<and>
        (\<forall>k'. k < k' \<and> k' < length (p # ps) \<and> cell_len g ((p # ps) ! k') \<noteq> 1
              \<longrightarrow> cell_len g res < cell_len g ((p # ps) ! k'))"
      proof (intro exI [of _ "Suc k"] conjI allI impI ballI)
        fix k' assume a: "Suc k < k' \<and> k' < length (p # ps) \<and> cell_len g ((p # ps) ! k') \<noteq> 1"
        then obtain m where m: "k' = Suc m" by (cases k') auto
        with a k(6) show "cell_len g res < cell_len g ((p # ps) ! k')" by simp
      next
        fix q assume "q \<in> set (p # ps)" "cell_len g q \<noteq> 1"
        with k(4,5) show "cell_len g res \<le> cell_len g q" by (cases "q = p") auto
      qed (use k True in auto)
      with step r show ?thesis by auto
    qed
  next
    case False
    then have step: "mrv_loop g (p # ps) var small = mrv_loop g ps var small"
      by (auto simp add: p gc cell_len_def Let_def)
    from Cons.IH [OF sub, of var small] obtain res where
      r: "mrv_loop g ps var small = Inr res"
      and alt: "(res = var \<and> (\<forall>q \<in> set ps. \<not> (cell_len g q \<le> small \<and> cell_len g q \<noteq> 1))) \<or>
        (\<exists>k < length ps. res = ps ! k \<and> cell_len g res \<noteq> 1 \<and> cell_len g res \<le> small \<and>
          (\<forall>q \<in> set ps. cell_len g q \<noteq> 1 \<longrightarrow> cell_len g res \<le> cell_len g q) \<and>
          (\<forall>k'. k < k' \<and> k' < length ps \<and> cell_len g (ps ! k') \<noteq> 1
              \<longrightarrow> cell_len g res < cell_len g (ps ! k')))"
      by blast
    from alt show ?thesis
    proof
      assume "res = var \<and> (\<forall>q \<in> set ps. \<not> (cell_len g q \<le> small \<and> cell_len g q \<noteq> 1))"
      with False step r show ?thesis by auto
    next
      assume "\<exists>k < length ps. res = ps ! k \<and> cell_len g res \<noteq> 1 \<and> cell_len g res \<le> small \<and>
          (\<forall>q \<in> set ps. cell_len g q \<noteq> 1 \<longrightarrow> cell_len g res \<le> cell_len g q) \<and>
          (\<forall>k'. k < k' \<and> k' < length ps \<and> cell_len g (ps ! k') \<noteq> 1
              \<longrightarrow> cell_len g res < cell_len g (ps ! k'))"
      then obtain k where k: "k < length ps" "res = ps ! k" "cell_len g res \<noteq> 1"
        "cell_len g res \<le> small"
        "\<forall>q \<in> set ps. cell_len g q \<noteq> 1 \<longrightarrow> cell_len g res \<le> cell_len g q"
        "\<forall>k'. k < k' \<and> k' < length ps \<and> cell_len g (ps ! k') \<noteq> 1
              \<longrightarrow> cell_len g res < cell_len g (ps ! k')"
        by blast
      have "\<exists>k < length (p # ps). res = (p # ps) ! k \<and> cell_len g res \<noteq> 1 \<and> cell_len g res \<le> small \<and>
        (\<forall>q \<in> set (p # ps). cell_len g q \<noteq> 1 \<longrightarrow> cell_len g res \<le> cell_len g q) \<and>
        (\<forall>k'. k < k' \<and> k' < length (p # ps) \<and> cell_len g ((p # ps) ! k') \<noteq> 1
              \<longrightarrow> cell_len g res < cell_len g ((p # ps) ! k'))"
      proof (intro exI [of _ "Suc k"] conjI allI impI ballI)
        fix k' assume a: "Suc k < k' \<and> k' < length (p # ps) \<and> cell_len g ((p # ps) ! k') \<noteq> 1"
        then obtain m where m: "k' = Suc m" by (cases k') auto
        with a k(6) show "cell_len g res < cell_len g ((p # ps) ! k')" by simp
      next
        fix q assume "q \<in> set (p # ps)" "cell_len g q \<noteq> 1"
        with k(4,5) False show "cell_len g res \<le> cell_len g q" by (cases "q = p") auto
      qed (use k in auto)
      with step r show ?thesis by auto
    qed
  qed
qed

lemma all_coords_nth_all: "\<forall>i \<in> set [0..<9]. \<forall>j \<in> set [0..<9]. all_coords ! (9 * i + j) = (i, j)"
  by code_simp

lemma all_coords_nth: "i < 9 \<Longrightarrow> j < 9 \<Longrightarrow> all_coords ! (9 * i + j) = (i, j)"
  using all_coords_nth_all by simp

lemma length_all_coords: "length all_coords = 81"
  by code_simp

lemma all_coords_pos:
  assumes "k < 81"
  shows "\<exists>i j. i < 9 \<and> j < 9 \<and> all_coords ! k = (i, j) \<and> k = 9 * i + j"
proof -
  have "all_coords ! k \<in> set all_coords" using assms by (simp add: length_all_coords)
  then obtain i j where ij: "all_coords ! k = (i, j)" "i < 9" "j < 9"
    by (auto simp: set_all_coords)
  have "map (\<lambda>(i, j). 9 * i + j) all_coords ! k = [0..<81] ! k"
    by (simp only: all_coords_index)
  with assms ij have "9 * i + j = k" by (simp add: length_all_coords)
  with ij show ?thesis by blast
qed

text \<open>
  C4, as stated, fails on ties: the test \<^verbatim>\<open>d_len <= small_domain\<close> lets a later cell of the
  same size replace the one found before. On the board of 81 dots every cell has nine
  candidates; \<^verbatim>\<open>MRV.select_variable\<close> returns the last cell \<open>(8, 8)\<close>, not the first.
\<close>

theorem C4_mrv_tie_counterexample:
  "select_variable MRV (read_file (replicate 81 (CHR ''.'')) Grid_init) = Inr (Some (8, 8))
   \<and> get_cell (read_file (replicate 81 (CHR ''.'')) Grid_init) 0 0 = Inr ''123456789''
   \<and> get_cell (read_file (replicate 81 (CHR ''.'')) Grid_init) 8 8 = Inr ''123456789''"
  by code_simp

text \<open>
  C4 (corrected): for every board of nine rows of nine cells in which each cell has between
  one and nine candidates and at least one cell has more than one, \<^verbatim>\<open>MRV.select_variable\<close>
  returns the coordinates of a cell whose number of candidates is the smallest number
  greater than one on the board, and when several cells share that number it returns the
  last of them in row-major order: every cell after it with more than one candidate has
  strictly more candidates.
\<close>

theorem C4_mrv_selects_last_minimum:
  assumes "shape9 g" "domains_1_to_9 g" "has_open_cell g"
  shows "\<exists>i j. i < 9 \<and> j < 9 \<and> select_variable MRV g = Inr (Some (i, j))
     \<and> 1 < length (g ! i ! j)
     \<and> (\<forall>i' < 9. \<forall>j' < 9. 1 < length (g ! i' ! j') \<longrightarrow> length (g ! i ! j) \<le> length (g ! i' ! j'))
     \<and> (\<forall>i' < 9. \<forall>j' < 9. 1 < length (g ! i' ! j') \<and> 9 * i + j < 9 * i' + j'
           \<longrightarrow> length (g ! i ! j) < length (g ! i' ! j'))"
proof -
  have dom: "1 \<le> length (g ! i ! j) \<and> length (g ! i ! j) \<le> 9" if "i < 9" "j < 9" for i j
    using assms(2) that by (simp add: domains_1_to_9_def)
  from assms(3) obtain a b where ab: "a < 9" "b < 9" "1 < length (g ! a ! b)"
    by (auto simp: has_open_cell_def)
  from mrv_loop_last_min [OF assms(1) subset_refl, of "(0, 0)" 9] obtain res where
    r: "mrv_loop g all_coords (0, 0) 9 = Inr res"
    and alt: "(res = (0, 0) \<and> (\<forall>p \<in> set all_coords. \<not> (cell_len g p \<le> 9 \<and> cell_len g p \<noteq> 1))) \<or>
     (\<exists>k < length all_coords. res = all_coords ! k \<and> cell_len g res \<noteq> 1 \<and> cell_len g res \<le> 9 \<and>
        (\<forall>p \<in> set all_coords. cell_len g p \<noteq> 1 \<longrightarrow> cell_len g res \<le> cell_len g p) \<and>
        (\<forall>k'. k < k' \<and> k' < length all_coords \<and> cell_len g (all_coords ! k') \<noteq> 1
              \<longrightarrow> cell_len g res < cell_len g (all_coords ! k')))"
    by blast
  have "\<not> (\<forall>p \<in> set all_coords. \<not> (cell_len g p \<le> 9 \<and> cell_len g p \<noteq> 1))"
  proof
    assume "\<forall>p \<in> set all_coords. \<not> (cell_len g p \<le> 9 \<and> cell_len g p \<noteq> 1)"
    moreover have "(a, b) \<in> set all_coords" using ab by (simp add: set_all_coords)
    ultimately have "\<not> (cell_len g (a, b) \<le> 9 \<and> cell_len g (a, b) \<noteq> 1)" by blast
    with ab dom [of a b] show False by (simp add: cell_len_def)
  qed
  with alt obtain k where k: "k < 81" "res = all_coords ! k" "cell_len g res \<noteq> 1"
    "\<forall>p \<in> set all_coords. cell_len g p \<noteq> 1 \<longrightarrow> cell_len g res \<le> cell_len g p"
    "\<forall>k'. k < k' \<and> k' < 81 \<and> cell_len g (all_coords ! k') \<noteq> 1
              \<longrightarrow> cell_len g res < cell_len g (all_coords ! k')"
    by (auto simp: length_all_coords)
  from all_coords_pos [OF k(1)] k(2) obtain i j where
    ij: "i < 9" "j < 9" "res = (i, j)" "k = 9 * i + j"
    by auto
  have sel: "select_variable MRV g = Inr (Some (i, j))"
    using r ij(3) by (simp add: mrv_select_def)
  have big: "1 < length (g ! i ! j)"
    using k(3) dom [OF ij(1,2)] ij(3) by (simp add: cell_len_def)
  have least: "length (g ! i ! j) \<le> length (g ! i' ! j')"
    if "i' < 9" "j' < 9" "1 < length (g ! i' ! j')" for i' j'
  proof -
    have "(i', j') \<in> set all_coords" using that by (simp add: set_all_coords)
    with k(4) have "cell_len g (i', j') \<noteq> 1 \<longrightarrow> cell_len g res \<le> cell_len g (i', j')" by blast
    with that(3) ij(3) show ?thesis by (simp add: cell_len_def)
  qed
  have later: "length (g ! i ! j) < length (g ! i' ! j')"
    if "i' < 9" "j' < 9" "1 < length (g ! i' ! j')" "9 * i + j < 9 * i' + j'" for i' j'
  proof -
    have "9 * i' + j' < 81" using that(1,2) by simp
    moreover have "all_coords ! (9 * i' + j') = (i', j')" using that(1,2) by (rule all_coords_nth)
    ultimately have "cell_len g res < cell_len g (i', j')"
      using k(5) [rule_format, of "9 * i' + j'"] that(3,4) ij(4) by (simp add: cell_len_def)
    with ij(3) show ?thesis by (simp add: cell_len_def)
  qed
  from ij(1,2) sel big least later show ?thesis by blast
qed

lemma read_file_domains:
  assumes "length s = 81"
  shows "domains_1_to_9 (read_file s Grid_init)"
  unfolding domains_1_to_9_def
  using read_file_cell [OF assms] by (simp add: cell_of_char_def complete_domain_def)

theorem C4_mrv_selects_last_minimum_witness:
  "shape9 (read_file easy_puzzle Grid_init)
   \<and> domains_1_to_9 (read_file easy_puzzle Grid_init)
   \<and> has_open_cell (read_file easy_puzzle Grid_init)
   \<and> (\<exists>i j. i < 9 \<and> j < 9
        \<and> select_variable MRV (read_file easy_puzzle Grid_init) = Inr (Some (i, j))
        \<and> 1 < length (read_file easy_puzzle Grid_init ! i ! j))"
proof -
  have s: "shape9 (read_file easy_puzzle Grid_init)"
    using length_easy_puzzle by (rule read_file_shape9)
  have d: "domains_1_to_9 (read_file easy_puzzle Grid_init)"
    using length_easy_puzzle by (rule read_file_domains)
  have "read_file easy_puzzle Grid_init ! 0 ! 2 = cell_of_char (easy_puzzle ! (9 * 0 + 2))"
    using length_easy_puzzle by (rule read_file_cell) simp_all
  moreover have "easy_puzzle ! (9 * 0 + 2) = CHR ''.''" by (simp add: easy_puzzle_def)
  ultimately have "1 < length (read_file easy_puzzle Grid_init ! 0 ! 2)"
    by (simp add: cell_of_char_def complete_domain_def)
  then have h: "has_open_cell (read_file easy_puzzle Grid_init)"
    unfolding has_open_cell_def by (intro exI [of _ 0] conjI exI [of _ 2]) simp_all
  from C4_mrv_selects_last_minimum [OF s d h] s d h show ?thesis by blast
qed

section \<open>Termination of the propagation loop\<close>

text \<open>The \<^verbatim>\<open>while Q:\<close> loop of \<^verbatim>\<open>AC3.consistency\<close> once more, now with a bound on the number of
  iterations: \<open>consistency_fuel n\<close> runs at most \<open>n\<close> iterations of the loop body and is \<open>None\<close> when
  the loop has not left by then.  A raised exception leaves the loop as well.\<close>

fun consistency_fuel :: "nat \<Rightarrow> pick \<Rightarrow> grid \<Rightarrow> coord list \<Rightarrow> (error + (bool \<times> grid)) option" where
  "consistency_fuel 0 pick g Q = (if Q = [] then Some (Inr (False, g)) else None)"
| "consistency_fuel (Suc n) pick g Q =
     (if Q = [] then Some (Inr (False, g))
      else
        let var = Q ! (pick g Q mod length Q); Q1 = remove1 var Q in
        case remove_domain_row g (fst var) (snd var) of Inl e \<Rightarrow> Some (Inl e)
        | Inr (row_vars, g1) \<Rightarrow>
        (case remove_domain_column g1 (fst var) (snd var) of Inl e \<Rightarrow> Some (Inl e)
         | Inr (col_vars, g2) \<Rightarrow>
         (case remove_domain_unit g2 (fst var) (snd var) of Inl e \<Rightarrow> Some (Inl e)
          | Inr (unit_vars, g3) \<Rightarrow>
            (case row_vars of None \<Rightarrow> Some (Inr (True, g3))
             | Some rv \<Rightarrow> (case col_vars of None \<Rightarrow> Some (Inr (True, g3))
                | Some cv \<Rightarrow> (case unit_vars of None \<Rightarrow> Some (Inr (True, g3))
                    | Some uv \<Rightarrow> consistency_fuel n pick g3 (fold q_add (rv @ cv @ uv) Q1)))))))"

lemma length_fold_q_add_ge: "length (fold q_add vs Q) \<le> length Q + length vs"
proof (induction vs arbitrary: Q)
  case Nil
  then show ?case by simp
next
  case (Cons v vs)
  have "length (fold q_add vs (q_add v Q)) \<le> length (q_add v Q) + length vs" by (rule Cons.IH)
  also have "length (q_add v Q) \<le> Suc (length Q)" by (simp add: q_add_def)
  finally show ?case by simp
qed

lemma consistency_fuel_enough:
  "big g + length Q \<le> n \<Longrightarrow> consistency_fuel n pick g Q = Some (consistency pick g Q)"
proof (induction n arbitrary: g Q)
  case 0
  then show ?case by (simp add: consistency_Nil)
next
  case (Suc n)
  show ?case
  proof (cases "Q = []")
    case True
    then show ?thesis by (simp add: consistency_Nil)
  next
    case False
    define var where "var = Q ! (pick g Q mod length Q)"
    have m: "var \<in> set Q" using False by (simp add: var_def)
    then have l: "Suc (length (remove1 var Q)) = length Q"
      using False by (simp add: length_remove1)
    show ?thesis
    proof (cases "remove_domain_row g (fst var) (snd var)")
      case (Inl e)
      with False show ?thesis
        by (subst consistency.simps) (simp add: Let_def var_def [symmetric])
    next
      case r: (Inr p1)
      obtain row_vars g1 where p1: "p1 = (row_vars, g1)" by (cases p1)
      show ?thesis
      proof (cases "remove_domain_column g1 (fst var) (snd var)")
        case (Inl e)
        with False r p1 show ?thesis
          by (subst consistency.simps) (simp add: Let_def var_def [symmetric])
      next
        case c: (Inr p2)
        obtain col_vars g2 where p2: "p2 = (col_vars, g2)" by (cases p2)
        show ?thesis
        proof (cases "remove_domain_unit g2 (fst var) (snd var)")
          case (Inl e)
          with False r p1 c p2 show ?thesis
            by (subst consistency.simps) (simp add: Let_def var_def [symmetric])
        next
          case u: (Inr p3)
          obtain unit_vars g3 where p3: "p3 = (unit_vars, g3)" by (cases p3)
          note st = consistency_step [where pick = pick and g = g and Q = Q, OF False var_def
              r [unfolded p1] c [unfolded p2] u [unfolded p3]]
          have fu: "consistency_fuel (Suc n) pick g Q =
            (case row_vars of None \<Rightarrow> Some (Inr (True, g3))
             | Some rv \<Rightarrow> (case col_vars of None \<Rightarrow> Some (Inr (True, g3))
                | Some cv \<Rightarrow> (case unit_vars of None \<Rightarrow> Some (Inr (True, g3))
                    | Some uv \<Rightarrow> consistency_fuel n pick g3 (fold q_add (rv @ cv @ uv) (remove1 var Q)))))"
            using False r p1 c p2 u p3 by (simp add: Let_def var_def [symmetric])
          show ?thesis
          proof (cases "row_vars = None \<or> col_vars = None \<or> unit_vars = None")
            case True
            then show ?thesis unfolding fu st by (auto split: option.splits)
          next
            case F: False
            then obtain rv cv uv where s: "row_vars = Some rv" "col_vars = Some cv" "unit_vars = Some uv"
              by auto
            have "big g3 + length (rv @ cv @ uv) \<le> big g"
              using remove_three_big [of g "fst var" "snd var" rv g1 cv g2 uv g3] r p1 c p2 u p3 s
              by simp
            moreover have "length (fold q_add (rv @ cv @ uv) (remove1 var Q))
                \<le> length (remove1 var Q) + length (rv @ cv @ uv)"
              by (rule length_fold_q_add_ge)
            ultimately have "big g3 + length (fold q_add (rv @ cv @ uv) (remove1 var Q)) \<le> n"
              using Suc.prems l by linarith
            then have "consistency_fuel n pick g3 (fold q_add (rv @ cv @ uv) (remove1 var Q))
                = Some (consistency pick g3 (fold q_add (rv @ cv @ uv) (remove1 var Q)))"
              by (rule Suc.IH)
            then show ?thesis unfolding fu st by (simp add: s)
          qed
        qed
      qed
    qed
  qed
qed

text \<open>C10. \<^verbatim>\<open>AC3.consistency\<close> terminates on every grid and every initial queue, whatever
  element \<^verbatim>\<open>Q.pop()\<close> picks: the loop has left (with its flag, or with an exception) after at
  most \<open>big g + length Q\<close> iterations, where \<open>big g\<close> counts the cells that hold more than one
  candidate.  A pass removes one element from the queue and adds only cells that have just
  dropped to one candidate, so this sum falls with every iteration.\<close>

theorem C10_consistency_terminates:
  "consistency_fuel (big g + length Q) pick g Q = Some (consistency pick g Q)"
  by (rule consistency_fuel_enough) simp

section \<open>The removal passes on a board of nine rows of nine cells\<close>

text \<open>The cell at a coordinate, and the twenty peers the three passes visit.\<close>

definition cell_at :: "grid \<Rightarrow> coord \<Rightarrow> string" where
  "cell_at g p = g ! fst p ! snd p"

definition peers :: "coord \<Rightarrow> coord list" where
  "peers p = row_peers (fst p) (snd p) @ column_peers (fst p) (snd p) @ unit_peers (fst p) (snd p)"

definition nonempty_cells :: "grid \<Rightarrow> bool" where
  "nonempty_cells g \<longleftrightarrow> (\<forall>p \<in> set all_coords. cell_at g p \<noteq> [])"

text \<open>How a cell may differ after a pass: it is the same, or it had several candidates and
  has lost some of them, but not all.\<close>

definition shrinks :: "string \<Rightarrow> string \<Rightarrow> bool" where
  "shrinks s s' \<longleftrightarrow> s' = s \<or> (s' \<noteq> [] \<and> 1 < length s \<and> set s' \<subseteq> set s)"

lemma shrinks_refl [simp]: "shrinks s s"
  by (simp add: shrinks_def)

lemma shrinks_trans: "shrinks a b \<Longrightarrow> shrinks b c \<Longrightarrow> shrinks a c"
  by (auto simp: shrinks_def)

lemma shrinks_single: "shrinks s s' \<Longrightarrow> length s = 1 \<Longrightarrow> s' = s"
  by (auto simp: shrinks_def)

lemma shrinks_nonempty: "shrinks s s' \<Longrightarrow> s \<noteq> [] \<Longrightarrow> s' \<noteq> []"
  by (auto simp: shrinks_def)

lemma shrinks_set: "shrinks s s' \<Longrightarrow> set s' \<subseteq> set s"
  by (auto simp: shrinks_def)

lemma replace_empty_set: "set (replace_empty s old) \<subseteq> set s"
proof (induction s old rule: replace_empty.induct)
  case (1 old)
  then show ?case by simp
next
  case (2 x xs old)
  show ?case
  proof (cases "old \<noteq> [] \<and> take (length old) (x # xs) = old")
    case True
    then have "set (replace_empty (x # xs) old) \<subseteq> set (drop (length old) (x # xs))"
      using 2(1) by simp
    also have "\<dots> \<subseteq> set (x # xs)" by (rule set_drop_subset)
    finally show ?thesis .
  next
    case False
    then show ?thesis using 2(2) by auto
  qed
qed

lemma replace_empty_single: "replace_empty s [u] = filter (\<lambda>x. x \<noteq> u) s"
  by (induction s) auto

lemma replace_empty_of_single: "replace_empty [x] old = (if old = [x] then [] else [x])"
  by (cases old) auto

lemma replace_empty_shrinks: "replace_empty s old \<noteq> [] \<Longrightarrow> shrinks s (replace_empty s old)"
proof (cases s)
  case Nil
  then show ?thesis by simp
next
  case (Cons x xs)
  assume ne: "replace_empty s old \<noteq> []"
  show ?thesis
  proof (cases xs)
    case Nil
    with Cons have e: "replace_empty s old = (if old = s then [] else s)"
      by (simp only: replace_empty_of_single)
    with ne have "replace_empty s old = s" by (cases "old = s") simp_all
    then show ?thesis by (simp only: shrinks_refl)
  next
    case (Cons y ys)
    with \<open>s = x # xs\<close> have "1 < length s" by simp
    with ne show ?thesis by (simp add: shrinks_def replace_empty_set)
  qed
qed

lemma shape9_set_cell: "shape9 g \<Longrightarrow> shape9 (set_cell g i j v)"
proof (cases "i < length g")
  case True
  assume s: "shape9 g"
  have "set (g[i := (g ! i)[j := v]]) \<subseteq> insert ((g ! i)[j := v]) (set g)"
    by (rule set_update_subset_insert)
  moreover have "length ((g ! i)[j := v]) = 9" using s True by (simp add: shape9_def)
  ultimately show ?thesis using s by (auto simp: shape9_def set_cell_def)
next
  case False
  assume "shape9 g"
  with False show ?thesis by (simp add: set_cell_def list_update_beyond)
qed

lemma cell_at_set_cell:
  "i < length g \<Longrightarrow> j < length (g ! i) \<Longrightarrow>
   cell_at (set_cell g i j v) p = (if p = (i, j) then v else cell_at g p)"
  by (cases p) (auto simp: cell_at_def set_cell_def nth_list_update)

lemma get_cell_coords:
  "shape9 g \<Longrightarrow> p \<in> set all_coords \<Longrightarrow> get_cell g (fst p) (snd p) = Inr (cell_at g p)"
  by (cases p) (simp add: set_all_coords get_cell_shape9 cell_at_def)

text \<open>A pass raises no exception on a 9x9 board, keeps its shape, and changes cells only by
  \<open>shrinks\<close>.\<close>

lemma remove_loop_shape:
  "remove_loop g row column ps va = Inr (res, g') \<Longrightarrow> shape9 g \<Longrightarrow> shape9 g'"
proof (induction g row column ps va rule: remove_loop.induct)
  case (1 g row column va)
  then show ?case by simp
next
  case (2 g row column i j ps va)
  from "2.prems"(1) obtain c v where
    c: "get_cell g i j = Inr c" and v: "get_cell g row column = Inr v"
    by (auto simp: bind_err_eq_Inr)
  show ?case
  proof (cases "length (replace_empty c v) = 0")
    case True
    with "2.prems" c v show ?thesis by simp
  next
    case False
    with "2.prems"(1) c v have
      "remove_loop (set_cell g i j (replace_empty c v)) row column ps
         (if length (replace_empty c v) = 1 \<and> length c > 1 then va @ [(i, j)] else va) = Inr (res, g')"
      by (simp add: Let_def)
    from "2.IH" [OF c v refl False this] "2.prems"(2) show ?thesis
      by (simp add: shape9_set_cell)
  qed
qed

lemma remove_loop_shrinks:
  "remove_loop g row column ps va = Inr (res, g') \<Longrightarrow> shrinks (cell_at g p) (cell_at g' p)"
proof (induction g row column ps va rule: remove_loop.induct)
  case (1 g row column va)
  then show ?case by simp
next
  case (2 g row column i j ps va)
  from "2.prems"(1) obtain c v where
    c: "get_cell g i j = Inr c" and v: "get_cell g row column = Inr v"
    by (auto simp: bind_err_eq_Inr)
  from c have ij: "i < length g" "j < length (g ! i)" "c = cell_at g (i, j)"
    by (auto simp: get_cell_Inr cell_at_def)
  show ?case
  proof (cases "length (replace_empty c v) = 0")
    case True
    with "2.prems" c v show ?thesis by simp
  next
    case False
    with "2.prems"(1) c v have
      "remove_loop (set_cell g i j (replace_empty c v)) row column ps
         (if length (replace_empty c v) = 1 \<and> length c > 1 then va @ [(i, j)] else va) = Inr (res, g')"
      by (simp add: Let_def)
    from "2.IH" [OF c v refl False this]
    have ih: "shrinks (cell_at (set_cell g i j (replace_empty c v)) p) (cell_at g' p)" .
    have "shrinks (cell_at g p) (cell_at (set_cell g i j (replace_empty c v)) p)"
      using False ij by (simp add: cell_at_set_cell replace_empty_shrinks)
    then show ?thesis using ih by (rule shrinks_trans)
  qed
qed

lemma remove_loop_total:
  assumes "shape9 g" "row < 9" "column < 9" "set ps \<subseteq> set all_coords"
  shows "\<exists>res g'. remove_loop g row column ps va = Inr (res, g')"
  using assms
proof (induction ps arbitrary: g va)
  case Nil
  then show ?case by simp
next
  case (Cons p ps)
  obtain i j where p: "p = (i, j)" by (cases p)
  with Cons.prems have ij: "i < 9" "j < 9" by (auto simp: set_all_coords)
  have c: "get_cell g i j = Inr (g ! i ! j)" using Cons.prems(1) ij by (rule get_cell_shape9)
  have v: "get_cell g row column = Inr (g ! row ! column)"
    using Cons.prems(1-3) by (rule get_cell_shape9)
  show ?case
  proof (cases "length (replace_empty (g ! i ! j) (g ! row ! column)) = 0")
    case True
    with p c v show ?thesis by simp
  next
    case False
    have "shape9 (set_cell g i j (replace_empty (g ! i ! j) (g ! row ! column)))"
      using Cons.prems(1) by (rule shape9_set_cell)
    from Cons.IH [OF this Cons.prems(2,3)] Cons.prems(4) p c v False show ?thesis
      by (simp add: Let_def)
  qed
qed

text \<open>The coordinates a pass hands back are peers it visited, and they hold one candidate.\<close>

lemma remove_loop_assigned:
  "remove_loop g row column ps va = Inr (Some va', g') \<Longrightarrow>
   set va \<subseteq> set va' \<and> set va' \<subseteq> set va \<union> set ps
   \<and> (\<forall>p \<in> set va'. p \<in> set va \<or> length (cell_at g' p) = 1)
   \<and> (\<forall>p. length (cell_at g' p) = 1 \<longrightarrow> length (cell_at g p) = 1 \<or> p \<in> set va')"
proof (induction g row column ps va rule: remove_loop.induct)
  case (1 g row column va)
  then show ?case by simp
next
  case (2 g row column i j ps va)
  from "2.prems"(1) obtain c v where
    c: "get_cell g i j = Inr c" and v: "get_cell g row column = Inr v"
    by (auto simp: bind_err_eq_Inr)
  from c have ij: "i < length g" "j < length (g ! i)" "c = cell_at g (i, j)"
    by (auto simp: get_cell_Inr cell_at_def)
  let ?new = "replace_empty c v"
  let ?g1 = "set_cell g i j ?new"
  let ?va1 = "if length ?new = 1 \<and> length c > 1 then va @ [(i, j)] else va"
  from "2.prems" c v have ne: "length ?new \<noteq> 0" by (auto simp: Let_def split: if_splits)
  with "2.prems"(1) c v have r: "remove_loop ?g1 row column ps ?va1 = Inr (Some va', g')"
    by (simp add: Let_def)
  from "2.IH" [OF c v refl ne r] have
    a: "set ?va1 \<subseteq> set va'" and b: "set va' \<subseteq> set ?va1 \<union> set ps"
    and s: "\<forall>p \<in> set va'. p \<in> set ?va1 \<or> length (cell_at g' p) = 1"
    and n: "\<forall>p. length (cell_at g' p) = 1 \<longrightarrow> length (cell_at ?g1 p) = 1 \<or> p \<in> set va'"
    by blast+
  have le: "length ?new \<le> length c" by (rule replace_empty_length)
  have st: "cell_at g' (i, j) = ?new" if "length ?new = 1"
    using remove_loop_shrinks [OF r, of "(i, j)"] ij that
    by (simp add: cell_at_set_cell shrinks_single)
  have 1: "set va \<subseteq> set va'" using a by (auto split: if_splits)
  have 2: "set va' \<subseteq> set va \<union> set ((i, j) # ps)" using b by (auto split: if_splits)
  have 3: "\<forall>p \<in> set va'. p \<in> set va \<or> length (cell_at g' p) = 1"
  proof
    fix p assume "p \<in> set va'"
    with s have "p \<in> set ?va1 \<or> length (cell_at g' p) = 1" by blast
    then show "p \<in> set va \<or> length (cell_at g' p) = 1"
      using st by (auto split: if_splits)
  qed
  have 4: "\<forall>p. length (cell_at g' p) = 1 \<longrightarrow> length (cell_at g p) = 1 \<or> p \<in> set va'"
  proof (intro allI impI)
    fix p assume "length (cell_at g' p) = 1"
    with n have d: "length (cell_at ?g1 p) = 1 \<or> p \<in> set va'" by blast
    show "length (cell_at g p) = 1 \<or> p \<in> set va'"
    proof (cases "p = (i, j)")
      case False
      with d ij show ?thesis by (simp add: cell_at_set_cell)
    next
      case True
      show ?thesis
      proof (cases "p \<in> set va'")
        case True
        then show ?thesis by simp
      next
        case F: False
        with d True ij have l: "length ?new = 1" by (simp add: cell_at_set_cell)
        have "\<not> 1 < length c"
        proof
          assume "1 < length c"
          with l have "(i, j) \<in> set ?va1" by simp
          with a True F show False by blast
        qed
        with l le have "length c = 1" by linarith
        with True ij show ?thesis by simp
      qed
    qed
  qed
  from 1 2 3 4 show ?case by blast
qed


lemma box_bound: "r < 9 \<Longrightarrow> r div 3 * 3 + 3 \<le> (9::nat)"
proof -
  assume "r < 9"
  then have "r div 3 < 3" using less_mult_imp_div_less [of r 3 3] by simp
  then show ?thesis by linarith
qed

lemma unit_coords_in_coords:
  assumes "p \<in> set all_coords" "q \<in> set (unit_coords (fst p) (snd p))"
  shows "q \<in> set all_coords"
proof -
  from assms(1) have b: "fst p div 3 * 3 + 3 \<le> 9" "snd p div 3 * 3 + 3 \<le> 9"
    by (auto simp: set_all_coords box_bound)
  from assms(2) have "fst q < fst p div 3 * 3 + 3" "snd q < snd p div 3 * 3 + 3"
    by (auto simp: unit_coords_def Let_def simp del: upt_Suc)
  with b show ?thesis by (cases q) (simp add: set_all_coords)
qed

lemma row_peers_coords: "p \<in> set all_coords \<Longrightarrow> set (row_peers (fst p) (snd p)) \<subseteq> set all_coords"
  by (auto simp: row_peers_def set_all_coords width_def)

lemma column_peers_coords:
  "p \<in> set all_coords \<Longrightarrow> set (column_peers (fst p) (snd p)) \<subseteq> set all_coords"
  by (auto simp: column_peers_def set_all_coords width_def)

lemma unit_peers_coords:
  "p \<in> set all_coords \<Longrightarrow> set (unit_peers (fst p) (snd p)) \<subseteq> set all_coords"
  using unit_coords_in_coords [of p] by (auto simp: unit_peers_def)

lemma peers_coords: "p \<in> set all_coords \<Longrightarrow> set (peers p) \<subseteq> set all_coords"
  using row_peers_coords [of p] column_peers_coords [of p] unit_peers_coords [of p]
  by (simp add: peers_def)

lemma self_not_peer: "p \<notin> set (peers p)"
  by (cases p) (auto simp: peers_def row_peers_def column_peers_def unit_peers_def)

text \<open>The three passes of one iteration of \<^verbatim>\<open>consistency\<close>, for a coordinate of the board.\<close>

lemma three_passes_total:
  assumes "shape9 g" "var \<in> set all_coords"
  shows "\<exists>row_vars g1 col_vars g2 unit_vars g3.
     remove_domain_row g (fst var) (snd var) = Inr (row_vars, g1)
   \<and> remove_domain_column g1 (fst var) (snd var) = Inr (col_vars, g2)
   \<and> remove_domain_unit g2 (fst var) (snd var) = Inr (unit_vars, g3)
   \<and> shape9 g1 \<and> shape9 g2 \<and> shape9 g3"
proof -
  from assms(2) have v: "fst var < 9" "snd var < 9" by (auto simp: set_all_coords)
  from remove_loop_total [OF assms(1) v row_peers_coords [OF assms(2)], of "[]"]
  obtain row_vars g1 where r: "remove_domain_row g (fst var) (snd var) = Inr (row_vars, g1)"
    by (auto simp: remove_domain_row_def)
  then have s1: "shape9 g1"
    using remove_loop_shape assms(1) by (auto simp: remove_domain_row_def)
  from remove_loop_total [OF s1 v column_peers_coords [OF assms(2)], of "[]"]
  obtain col_vars g2 where c: "remove_domain_column g1 (fst var) (snd var) = Inr (col_vars, g2)"
    by (auto simp: remove_domain_column_def)
  then have s2: "shape9 g2"
    using remove_loop_shape s1 by (auto simp: remove_domain_column_def)
  from remove_loop_total [OF s2 v unit_peers_coords [OF assms(2)], of "[]"]
  obtain unit_vars g3 where u: "remove_domain_unit g2 (fst var) (snd var) = Inr (unit_vars, g3)"
    by (auto simp: remove_domain_unit_def)
  then have s3: "shape9 g3"
    using remove_loop_shape s2 by (auto simp: remove_domain_unit_def)
  from r c u s1 s2 s3 show ?thesis by blast
qed

lemma three_passes_shrinks:
  assumes "remove_domain_row g r c = Inr (row_vars, g1)"
      and "remove_domain_column g1 r c = Inr (col_vars, g2)"
      and "remove_domain_unit g2 r c = Inr (unit_vars, g3)"
  shows "shrinks (cell_at g p) (cell_at g1 p)" "shrinks (cell_at g1 p) (cell_at g2 p)"
    "shrinks (cell_at g2 p) (cell_at g3 p)" "shrinks (cell_at g p) (cell_at g3 p)"
proof -
  show 1: "shrinks (cell_at g p) (cell_at g1 p)"
    using assms(1) unfolding remove_domain_row_def by (rule remove_loop_shrinks)
  show 2: "shrinks (cell_at g1 p) (cell_at g2 p)"
    using assms(2) unfolding remove_domain_column_def by (rule remove_loop_shrinks)
  show 3: "shrinks (cell_at g2 p) (cell_at g3 p)"
    using assms(3) unfolding remove_domain_unit_def by (rule remove_loop_shrinks)
  from 1 2 3 show "shrinks (cell_at g p) (cell_at g3 p)" by (blast intro: shrinks_trans)
qed

lemma set_fold_q_add: "set (fold q_add vs Q) = set vs \<union> set Q"
  by (induction vs arbitrary: Q) (auto simp: q_add_def)

lemma three_passes_assigned:
  assumes "remove_domain_row g r c = Inr (Some rv, g1)"
      and "remove_domain_column g1 r c = Inr (Some cv, g2)"
      and "remove_domain_unit g2 r c = Inr (Some uv, g3)"
  shows "set (rv @ cv @ uv) \<subseteq> set (peers (r, c))"
    and "\<forall>p \<in> set (rv @ cv @ uv). length (cell_at g3 p) = 1"
    and "\<forall>p. length (cell_at g3 p) = 1 \<longrightarrow> length (cell_at g p) = 1 \<or> p \<in> set (rv @ cv @ uv)"
proof -
  note a1 = remove_loop_assigned [OF assms(1) [unfolded remove_domain_row_def]]
  note a2 = remove_loop_assigned [OF assms(2) [unfolded remove_domain_column_def]]
  note a3 = remove_loop_assigned [OF assms(3) [unfolded remove_domain_unit_def]]
  note sh = three_passes_shrinks [OF assms]
  from a1 a2 a3 show "set (rv @ cv @ uv) \<subseteq> set (peers (r, c))"
    by (auto simp: peers_def)
  show "\<forall>p \<in> set (rv @ cv @ uv). length (cell_at g3 p) = 1"
  proof
    fix p assume "p \<in> set (rv @ cv @ uv)"
    then consider "p \<in> set rv" | "p \<in> set cv" | "p \<in> set uv" by auto
    then show "length (cell_at g3 p) = 1"
    proof cases
      case 1
      with a1 have l: "length (cell_at g1 p) = 1" by simp
      with sh(2) [of p] have "cell_at g2 p = cell_at g1 p" by (rule shrinks_single)
      moreover with l sh(3) [of p] have "cell_at g3 p = cell_at g2 p"
        by (simp add: shrinks_single)
      ultimately show ?thesis using l by simp
    next
      case 2
      with a2 have l: "length (cell_at g2 p) = 1" by simp
      with sh(3) [of p] have "cell_at g3 p = cell_at g2 p" by (rule shrinks_single)
      with l show ?thesis by simp
    next
      case 3
      with a3 show ?thesis by simp
    qed
  qed
  show "\<forall>p. length (cell_at g3 p) = 1 \<longrightarrow> length (cell_at g p) = 1 \<or> p \<in> set (rv @ cv @ uv)"
    using a1 a2 a3 by (metis Un_iff set_append)
qed

text \<open>\<^verbatim>\<open>consistency\<close> on a 9x9 board with a queue of coordinates of the board: no exception,
  the shape is kept, and every cell is changed by \<open>shrinks\<close> only.\<close>

lemma consistency_total:
  "shape9 g \<Longrightarrow> set Q \<subseteq> set all_coords \<Longrightarrow>
   \<exists>b g'. consistency pick g Q = Inr (b, g') \<and> shape9 g' \<and> (\<forall>p. shrinks (cell_at g p) (cell_at g' p))"
proof (induction pick g Q rule: consistency_induct)
  case (step pick g Q)
  show ?case
  proof (cases "Q = []")
    case True
    with step.prems show ?thesis
      by (intro exI [of _ False] exI [of _ g]) (simp add: consistency_Nil)
  next
    case False
    define var where "var = Q ! (pick g Q mod length Q)"
    with False have "var \<in> set Q" by simp
    with step.prems(2) have v: "var \<in> set all_coords" by blast
    from three_passes_total [OF step.prems(1) v] obtain row_vars g1 col_vars g2 unit_vars g3 where
      r: "remove_domain_row g (fst var) (snd var) = Inr (row_vars, g1)" and
      c: "remove_domain_column g1 (fst var) (snd var) = Inr (col_vars, g2)" and
      u: "remove_domain_unit g2 (fst var) (snd var) = Inr (unit_vars, g3)" and
      s3: "shape9 g3" by blast
    note st = consistency_step [where pick = pick and g = g and Q = Q, OF False var_def r c u]
    have sh: "shrinks (cell_at g p) (cell_at g3 p)" for p
      by (rule three_passes_shrinks(4) [OF r c u])
    show ?thesis
    proof (cases "row_vars = None \<or> col_vars = None \<or> unit_vars = None")
      case True
      with st have "consistency pick g Q = Inr (True, g3)" by (auto split: option.splits)
      with s3 sh show ?thesis by blast
    next
      case F: False
      then obtain rv cv uv where s: "row_vars = Some rv" "col_vars = Some cv" "unit_vars = Some uv"
        by auto
      let ?Q = "fold q_add (rv @ cv @ uv) (remove1 var Q)"
      have "set (rv @ cv @ uv) \<subseteq> set (peers var)"
        using three_passes_assigned(1) [OF r [unfolded s] c [unfolded s] u [unfolded s]]
        by (simp only: prod.collapse)
      then have "set (rv @ cv @ uv) \<subseteq> set all_coords"
        using peers_coords [OF v] by (rule subset_trans)
      moreover have "set (remove1 var Q) \<subseteq> set all_coords"
        using step.prems(2) set_remove1_subset [of var Q] by blast
      ultimately have q: "set ?Q \<subseteq> set all_coords" by (simp only: set_fold_q_add Un_subset_iff)
      from step.IH [OF False var_def r [unfolded s] c [unfolded s] u [unfolded s] s3 q]
      obtain b g' where
        k: "consistency pick g3 ?Q = Inr (b, g')" "shape9 g'"
          "\<forall>p. shrinks (cell_at g3 p) (cell_at g' p)" by blast
      from st s k(1) have "consistency pick g Q = Inr (b, g')" by simp
      moreover have "\<forall>p. shrinks (cell_at g p) (cell_at g' p)"
        using sh k(3) by (blast intro: shrinks_trans)
      ultimately show ?thesis using k(2) by blast
    qed
  qed
qed

section \<open>Propagation at a fixed point\<close>

text \<open>A board is at a fixed point of the propagation when no elimination applies: for every
  cell with one candidate, the \<^verbatim>\<open>replace\<close> of the removal passes gives every peer back as it
  is.\<close>

definition fixed_point :: "grid \<Rightarrow> bool" where
  "fixed_point g \<longleftrightarrow>
     (\<forall>p \<in> set all_coords. length (cell_at g p) = 1 \<longrightarrow>
        (\<forall>q \<in> set (peers p). replace_empty (cell_at g q) (cell_at g p) = cell_at g q))"

lemma set_cell_same: "set_cell g i j (g ! i ! j) = g"
  by (simp add: set_cell_def)

lemma remove_loop_fixed:
  assumes "shape9 g" "row < 9" "column < 9" "set ps \<subseteq> set all_coords"
      and "\<forall>q \<in> set ps. cell_at g q \<noteq> []
             \<and> replace_empty (cell_at g q) (cell_at g (row, column)) = cell_at g q"
  shows "remove_loop g row column ps va = Inr (Some va, g)"
  using assms(4,5)
proof (induction ps)
  case Nil
  then show ?case by simp
next
  case (Cons p ps)
  obtain i j where p: "p = (i, j)" by (cases p)
  with Cons.prems have ij: "i < 9" "j < 9" by (auto simp: set_all_coords)
  have c: "get_cell g i j = Inr (g ! i ! j)" using assms(1) ij by (rule get_cell_shape9)
  have v: "get_cell g row column = Inr (g ! row ! column)"
    using assms(1-3) by (rule get_cell_shape9)
  from Cons.prems(2) p have
    e: "replace_empty (g ! i ! j) (g ! row ! column) = g ! i ! j" and n: "g ! i ! j \<noteq> []"
    by (simp_all add: cell_at_def)
  have "remove_loop g row column ps va = Inr (Some va, g)"
    using Cons.IH Cons.prems by simp
  with p c v e n show ?case by (auto simp: Let_def set_cell_same)
qed

lemma three_passes_fixed:
  assumes "shape9 g" "nonempty_cells g" "fixed_point g"
      and "var \<in> set all_coords" "length (cell_at g var) = 1"
  shows "remove_domain_row g (fst var) (snd var) = Inr (Some [], g)"
    "remove_domain_column g (fst var) (snd var) = Inr (Some [], g)"
    "remove_domain_unit g (fst var) (snd var) = Inr (Some [], g)"
proof -
  from assms(4) have v: "fst var < 9" "snd var < 9" by (auto simp: set_all_coords)
  have f: "cell_at g q \<noteq> [] \<and> replace_empty (cell_at g q) (cell_at g (fst var, snd var)) = cell_at g q"
    if "q \<in> set (peers var)" for q
  proof -
    from that peers_coords [OF assms(4)] have "q \<in> set all_coords" by blast
    with assms(2) have "cell_at g q \<noteq> []" by (simp add: nonempty_cells_def)
    moreover from assms(3,4,5) that have "replace_empty (cell_at g q) (cell_at g var) = cell_at g q"
      by (simp add: fixed_point_def)
    ultimately show ?thesis by simp
  qed
  then have fa: "\<forall>q \<in> set (peers var).
      cell_at g q \<noteq> [] \<and> replace_empty (cell_at g q) (cell_at g (fst var, snd var)) = cell_at g q"
    by blast
  have fr: "\<forall>q \<in> set (row_peers (fst var) (snd var)).
      cell_at g q \<noteq> [] \<and> replace_empty (cell_at g q) (cell_at g (fst var, snd var)) = cell_at g q"
    using fa by (simp add: peers_def ball_Un)
  have fc: "\<forall>q \<in> set (column_peers (fst var) (snd var)).
      cell_at g q \<noteq> [] \<and> replace_empty (cell_at g q) (cell_at g (fst var, snd var)) = cell_at g q"
    using fa by (simp add: peers_def ball_Un)
  have fu: "\<forall>q \<in> set (unit_peers (fst var) (snd var)).
      cell_at g q \<noteq> [] \<and> replace_empty (cell_at g q) (cell_at g (fst var, snd var)) = cell_at g q"
    using fa by (simp add: peers_def ball_Un)
  show "remove_domain_row g (fst var) (snd var) = Inr (Some [], g)"
    unfolding remove_domain_row_def
    using assms(1) v row_peers_coords [OF assms(4)] fr by (rule remove_loop_fixed)
  show "remove_domain_column g (fst var) (snd var) = Inr (Some [], g)"
    unfolding remove_domain_column_def
    using assms(1) v column_peers_coords [OF assms(4)] fc by (rule remove_loop_fixed)
  show "remove_domain_unit g (fst var) (snd var) = Inr (Some [], g)"
    unfolding remove_domain_unit_def
    using assms(1) v unit_peers_coords [OF assms(4)] fu by (rule remove_loop_fixed)
qed

lemma consistency_fixed_point:
  assumes "shape9 g" "nonempty_cells g" "fixed_point g"
  shows "set Q \<subseteq> {p \<in> set all_coords. length (cell_at g p) = 1} \<Longrightarrow>
         consistency pick g Q = Inr (False, g)"
proof (induction "length Q" arbitrary: Q rule: less_induct)
  case less
  show ?case
  proof (cases "Q = []")
    case True
    then show ?thesis by (simp add: consistency_Nil)
  next
    case False
    define var where "var = Q ! (pick g Q mod length Q)"
    with False have m: "var \<in> set Q" by simp
    with less.prems have v: "var \<in> set all_coords" "length (cell_at g var) = 1" by auto
    note t = three_passes_fixed [OF assms v]
    have "consistency pick g Q = consistency pick g (fold q_add ([] @ [] @ []) (remove1 var Q))"
      using consistency_step [where pick = pick and g = g and Q = Q, OF False var_def t] by simp
    also have "\<dots> = consistency pick g (remove1 var Q)" by simp
    also have "\<dots> = Inr (False, g)"
    proof (rule less.hyps)
      show "length (remove1 var Q) < length Q"
        using m False by (simp add: length_remove1)
      show "set (remove1 var Q) \<subseteq> {p \<in> set all_coords. length (cell_at g p) = 1}"
        using less.prems set_remove1_subset [of var Q] by blast
    qed
    finally show ?thesis .
  qed
qed

text \<open>The queue \<^verbatim>\<open>pre_process_consistency\<close> builds holds the cells with one candidate.\<close>

lemma pre_process_queue_set:
  assumes "shape9 g"
  shows "set ps \<subseteq> set all_coords \<Longrightarrow>
    \<exists>Q. pre_process_queue g ps Q0 = Inr Q
       \<and> set Q = set Q0 \<union> {p \<in> set ps. length (cell_at g p) = 1}"
proof (induction ps arbitrary: Q0)
  case Nil
  then show ?case by simp
next
  case (Cons p ps)
  obtain i j where p: "p = (i, j)" by (cases p)
  with Cons.prems have ij: "i < 9" "j < 9" by (auto simp: set_all_coords)
  have c: "get_cell g i j = Inr (cell_at g p)"
    using get_cell_shape9 [OF assms ij] p by (simp add: cell_at_def)
  from Cons.prems have s: "set ps \<subseteq> set all_coords" by simp
  show ?case
  proof (cases "length (cell_at g p) = 1")
    case True
    from Cons.IH [OF s, of "q_add (i, j) Q0"] obtain Q where
      "pre_process_queue g ps (q_add (i, j) Q0) = Inr Q"
      "set Q = set (q_add (i, j) Q0) \<union> {p \<in> set ps. length (cell_at g p) = 1}" by blast
    with True p c show ?thesis by (auto simp: q_add_def split: if_splits)
  next
    case False
    from Cons.IH [OF s, of Q0] obtain Q where
      "pre_process_queue g ps Q0 = Inr Q"
      "set Q = set Q0 \<union> {p \<in> set ps. length (cell_at g p) = 1}" by blast
    with False p c show ?thesis by auto
  qed
qed

text \<open>C7. Propagation is idempotent: on a board of nine rows of nine non-empty cells that is
  at a fixed point, \<^verbatim>\<open>pre_process_consistency\<close> seeds the queue with all cells that hold one
  candidate, and \<^verbatim>\<open>consistency\<close> run on that queue returns \<^verbatim>\<open>False\<close> (no contradiction) and
  leaves the board as it was, whatever order the queue is emptied in.\<close>

theorem C7_propagation_idempotent:
  assumes "shape9 g" "nonempty_cells g" "fixed_point g"
  shows "\<exists>Q. pre_process_queue g all_coords [] = Inr Q
     \<and> set Q = {p \<in> set all_coords. length (cell_at g p) = 1}
     \<and> consistency pick g Q = Inr (False, g)
     \<and> pre_process_consistency pick g = Inr g"
proof -
  from pre_process_queue_set [OF assms(1) subset_refl, of "[]"] obtain Q where
    q: "pre_process_queue g all_coords [] = Inr Q"
       "set Q = {p \<in> set all_coords. length (cell_at g p) = 1}" by auto
  have c: "consistency pick g Q = Inr (False, g)"
    using assms by (rule consistency_fixed_point) (simp add: q(2))
  with q show ?thesis by (simp add: pre_process_consistency_def)
qed

text \<open>A board at a fixed point with open cells: the solved board in which the four corners
  of a rectangle, holding 5 4 and 4 5, are given both candidates.\<close>

definition two_way_grid :: grid where
  "two_way_grid =
     set_cell (set_cell (set_cell (set_cell (read_file solved_puzzle Grid_init)
       6 3 ''45'') 6 8 ''45'') 7 3 ''45'') 7 8 ''45''"

lemma two_way_grid_shape: "shape9 two_way_grid"
  unfolding two_way_grid_def
  by (intro shape9_set_cell read_file_shape9 length_solved_puzzle)

lemma two_way_grid_nonempty: "nonempty_cells two_way_grid"
  unfolding nonempty_cells_def by code_simp

lemma two_way_grid_fixed: "fixed_point two_way_grid"
  unfolding fixed_point_def by code_simp

theorem C7_propagation_idempotent_witness:
  "shape9 two_way_grid \<and> nonempty_cells two_way_grid \<and> fixed_point two_way_grid
   \<and> (\<exists>Q. pre_process_queue two_way_grid all_coords [] = Inr Q
     \<and> set Q = {p \<in> set all_coords. length (cell_at two_way_grid p) = 1}
     \<and> consistency (\<lambda>g Q. 0) two_way_grid Q = Inr (False, two_way_grid)
     \<and> pre_process_consistency (\<lambda>g Q. 0) two_way_grid = Inr two_way_grid)"
  using C7_propagation_idempotent [OF two_way_grid_shape two_way_grid_nonempty two_way_grid_fixed,
      of "\<lambda>g Q. 0"]
    two_way_grid_shape two_way_grid_nonempty two_way_grid_fixed
  by simp

end
